theory Spec2Isabelle
  imports Complex_Main "HOL-Library.AList"
begin

section \<open>The image cache of \<open>src/example/main.py\<close>\<close>

text \<open>
  A pygame surface is kept as its two dimensions, the only data the cache reads
  (\<open>get_width\<close>, \<open>get_height\<close>). A surface object is always truthy, so the source's
  \<open>if not surface\<close> and \<open>not cache.get(path)\<close> test for \<open>None\<close>; a possibly absent
  surface is a \<open>surface option\<close>.
\<close>

record surface =
  get_width :: nat
  get_height :: nat

datatype error = ValueError | ZeroDivisionError

text \<open>
  \<open>self.cache\<close> is a Python dict, kept as an association list in insertion order
  (\<open>AList.update\<close> overwrites an existing key in place and appends a new one, as the
  dict does; \<open>AList.delete\<close> is \<open>del\<close>); \<open>self.access_order\<close> is the deque, oldest
  key first.
\<close>

record image_cache =
  cache :: "(string \<times> surface) list"
  access_order :: "string list"
  max_memory :: int
  current_memory :: int

definition ImageCache_init :: "int \<Rightarrow> image_cache" where
  "ImageCache_init max_memory_mb =
     \<lparr>cache = [], access_order = [], max_memory = max_memory_mb * 1024 * 1024,
      current_memory = 0\<rparr>"

definition get_surface_size :: "surface \<Rightarrow> int" where
  "get_surface_size s = int (get_width s * get_height s * 4)"

text \<open>\<open>deque.remove(x)\<close> removes the first occurrence and raises ValueError when there is none.\<close>

definition deque_remove :: "string \<Rightarrow> string list \<Rightarrow> error + string list" where
  "deque_remove x xs = (if x \<in> set xs then Inr (remove1 x xs) else Inl ValueError)"

definition in_cache :: "string \<Rightarrow> image_cache \<Rightarrow> bool" where
  "in_cache path c = (map_of (cache c) path \<noteq> None)"

definition get :: "string \<Rightarrow> image_cache \<Rightarrow> error + (surface option \<times> image_cache)" where
  "get path c =
     (if in_cache path c then
        (case deque_remove path (access_order c) of
           Inl e \<Rightarrow> Inl e
         | Inr ao \<Rightarrow> Inr (map_of (cache c) path, c\<lparr>access_order := ao @ [path]\<rparr>))
      else Inr (None, c))"

text \<open>One pass of the body of the eviction loop of \<open>put\<close> (the deque is not empty there).\<close>

definition evict_oldest :: "image_cache \<Rightarrow> image_cache" where
  "evict_oldest c =
     (let oldest = hd (access_order c);
          c1 = c\<lparr>access_order := tl (access_order c)\<rparr>
      in case map_of (cache c1) oldest of
           Some old_surface \<Rightarrow>
             c1\<lparr>current_memory := current_memory c1 - get_surface_size old_surface,
                cache := AList.delete oldest (cache c1)\<rparr>
         | None \<Rightarrow> c1)"

function evict_loop :: "int \<Rightarrow> image_cache \<Rightarrow> image_cache" where
  "evict_loop surface_size c =
     (if current_memory c + surface_size > max_memory c \<and> access_order c \<noteq> []
      then evict_loop surface_size (evict_oldest c)
      else c)"
  by pat_completeness auto
termination
  by (relation "measure (\<lambda>(sz, c). length (access_order c))")
     (auto simp: evict_oldest_def Let_def split: option.splits)

definition add_surface :: "string \<Rightarrow> surface \<Rightarrow> image_cache \<Rightarrow> image_cache" where
  "add_surface path s c =
     c\<lparr>cache := AList.update path s (cache c),
       current_memory := current_memory c + get_surface_size s,
       access_order := access_order c @ [path]\<rparr>"

definition put :: "string \<Rightarrow> surface option \<Rightarrow> image_cache \<Rightarrow> error + image_cache" where
  "put path surface c =
     (case surface of
        None \<Rightarrow> Inr c
      | Some s \<Rightarrow>
          (let c1 = evict_loop (get_surface_size s) c in
           case map_of (cache c1) path of
             Some old_surface \<Rightarrow>
               (case deque_remove path (access_order c1) of
                  Inl e \<Rightarrow> Inl e
                | Inr ao \<Rightarrow>
                    Inr (add_surface path s
                          (c1\<lparr>access_order := ao,
                              current_memory := current_memory c1 - get_surface_size old_surface\<rparr>)))
           | None \<Rightarrow> Inr (add_surface path s c1)))"

text \<open>\<open>cache.cache.clear()\<close>, as the art-mode key handler of \<open>main\<close> calls it: only the dict.\<close>

definition cache_clear :: "image_cache \<Rightarrow> image_cache" where
  "cache_clear c = c\<lparr>cache := []\<rparr>"

subsection \<open>Sequences of cache operations\<close>

datatype cache_op = Put string "surface option" | Get string | Clear

fun apply_op :: "cache_op \<Rightarrow> image_cache \<Rightarrow> error + image_cache" where
  "apply_op (Put path surface) c = put path surface c"
| "apply_op (Get path) c = (case get path c of Inl e \<Rightarrow> Inl e | Inr (r, c') \<Rightarrow> Inr c')"
| "apply_op Clear c = Inr (cache_clear c)"

fun run_ops :: "cache_op list \<Rightarrow> image_cache \<Rightarrow> error + image_cache" where
  "run_ops [] c = Inr c"
| "run_ops (x # xs) c = (case apply_op x c of Inl e \<Rightarrow> Inl e | Inr c' \<Rightarrow> run_ops xs c')"

text \<open>The footprint of a \<open>Put\<close> operation's image (0 for \<open>None\<close> and for the other operations).\<close>

definition op_footprint :: "cache_op \<Rightarrow> int" where
  "op_footprint x = (case x of Put path (Some s) \<Rightarrow> get_surface_size s | _ \<Rightarrow> 0)"

definition cache_keys :: "image_cache \<Rightarrow> string set" where
  "cache_keys c = fst ` set (cache c)"

definition total_footprint :: "image_cache \<Rightarrow> int" where
  "total_footprint c = sum_list (map (\<lambda>(k, s). get_surface_size s) (cache c))"

text \<open>
  The representation invariant that \<open>get\<close> and \<open>put\<close> keep: each key once in the dict and
  once in the deque, the same keys in both, and \<open>current_memory\<close> the sum of the footprints.
\<close>

definition cache_inv :: "image_cache \<Rightarrow> bool" where
  "cache_inv c \<longleftrightarrow>
     distinct (map fst (cache c)) \<and> distinct (access_order c) \<and>
     set (access_order c) = cache_keys c \<and> current_memory c = total_footprint c"

text \<open>
  What survives \<open>cache.cache.clear()\<close> as well: the deque may then hold stale or repeated
  keys and \<open>current_memory\<close> may count surfaces that are gone.
\<close>

definition cache_ok :: "image_cache \<Rightarrow> bool" where
  "cache_ok c \<longleftrightarrow>
     distinct (map fst (cache c)) \<and> cache_keys c \<subseteq> set (access_order c) \<and>
     total_footprint c \<le> current_memory c"

text \<open>
  The memory that \<open>put\<close>'s loop sees after \<open>n\<close> evictions, and the dict after the keys
  \<open>ks\<close> have been evicted.
\<close>

definition memory_after :: "image_cache \<Rightarrow> nat \<Rightarrow> int" where
  "memory_after c n =
     current_memory c -
     sum_list (map (\<lambda>k. case map_of (cache c) k of Some s \<Rightarrow> get_surface_size s | None \<Rightarrow> 0)
                   (take n (access_order c)))"

definition without_keys :: "string list \<Rightarrow> (string \<times> surface) list \<Rightarrow> (string \<times> surface) list" where
  "without_keys ks al = filter (\<lambda>(k, s). k \<notin> set ks) al"

section \<open>The preloader\<close>

text \<open>
  \<open>preload_queue\<close> is the set of the source. \<open>executor\<close> stands for the thread pool: the
  path argument of every \<open>_preload_task\<close> submitted and not yet finished, in submission
  order. A task is one atomic step here, taken when it finishes; the surface it decoded
  (\<open>load_image_to_surface\<close>, \<open>None\<close> on any failure) is an input of that step.
\<close>

record image_preloader =
  preload_queue :: "string set"
  executor :: "string list"

definition ImagePreloader_init :: image_preloader where
  "ImagePreloader_init = \<lparr>preload_queue = {}, executor = []\<rparr>"

text \<open>The body of the last loop of \<open>preload_images\<close>; \<open>and\<close> does not call \<open>cache.get\<close>
  for a path of the queue.\<close>

definition preload_path ::
  "string \<Rightarrow> image_preloader \<times> image_cache \<Rightarrow> error + (image_preloader \<times> image_cache)" where
  "preload_path path pc =
     (case pc of (p, c) \<Rightarrow>
        if path \<in> preload_queue p then Inr (p, c)
        else
          (case get path c of
             Inl e \<Rightarrow> Inl e
           | Inr (Some s, c') \<Rightarrow> Inr (p, c')
           | Inr (None, c') \<Rightarrow>
               Inr (p\<lparr>preload_queue := insert path (preload_queue p),
                       executor := executor p @ [path]\<rparr>, c')))"

fun preload_paths ::
  "string list \<Rightarrow> image_preloader \<times> image_cache \<Rightarrow> error + (image_preloader \<times> image_cache)" where
  "preload_paths [] pc = Inr pc"
| "preload_paths (path # paths) pc =
     (case preload_path path pc of Inl e \<Rightarrow> Inl e | Inr pc' \<Rightarrow> preload_paths paths pc')"

text \<open>The indices of the first two loops: \<open>range(1, n + 1)\<close> is \<open>[1..n]\<close>, and \<open>%\<close> by a
  positive length is \<open>mod\<close> on \<open>int\<close>.\<close>

definition preload_indices :: "int \<Rightarrow> int \<Rightarrow> int \<Rightarrow> int \<Rightarrow> int list" where
  "preload_indices len current_index num_ahead num_behind =
     map (\<lambda>i. (current_index + i) mod len) [1..num_ahead] @
     map (\<lambda>i. (current_index - i) mod len) [1..num_behind]"

definition neighbor_paths :: "string list \<Rightarrow> int \<Rightarrow> int \<Rightarrow> int \<Rightarrow> string list" where
  "neighbor_paths images current_index num_ahead num_behind =
     map (\<lambda>idx. images ! nat idx)
         (preload_indices (int (length images)) current_index num_ahead num_behind)"

definition preload_images ::
  "string list \<Rightarrow> int \<Rightarrow> int \<Rightarrow> int \<Rightarrow> image_preloader \<times> image_cache \<Rightarrow>
   error + (image_preloader \<times> image_cache)" where
  "preload_images images current_index num_ahead num_behind pc =
     (if images = [] then Inr pc
      else preload_paths (neighbor_paths images current_index num_ahead num_behind) pc)"

text \<open>
  \<open>_preload_task\<close>: the \<open>finally\<close> clause discards the path whether \<open>cache.put\<close> returned
  or raised, so the preloader is returned beside the result of \<open>put\<close>.
\<close>

definition preload_task ::
  "string \<Rightarrow> surface option \<Rightarrow> image_preloader \<Rightarrow> image_cache \<Rightarrow>
   image_preloader \<times> (error + image_cache)" where
  "preload_task path surface p c =
     (p\<lparr>preload_queue := preload_queue p - {path}\<rparr>,
      case surface of None \<Rightarrow> Inr c | Some s \<Rightarrow> put path (Some s) c)"

text \<open>
  The preloader and the cache under the calls that reach them: a \<open>preload_images\<close> call of
  the main loop, the end of a submitted task (ignored when no such task is pending), and a
  cache operation of the foreground.
\<close>

datatype sys_event =
    Schedule "string list" int int int
  | TaskDone string "surface option"
  | Foreground cache_op

fun sys_step ::
  "sys_event \<Rightarrow> image_preloader \<times> image_cache \<Rightarrow> error + (image_preloader \<times> image_cache)" where
  "sys_step (Schedule images current_index num_ahead num_behind) pc =
     preload_images images current_index num_ahead num_behind pc"
| "sys_step (TaskDone path surface) (p, c) =
     (if path \<in> set (executor p) then
        (case preload_task path surface p c of
           (p', Inl e) \<Rightarrow> Inl e
         | (p', Inr c') \<Rightarrow> Inr (p'\<lparr>executor := remove1 path (executor p')\<rparr>, c'))
      else Inr (p, c))"
| "sys_step (Foreground x) (p, c) =
     (case apply_op x c of Inl e \<Rightarrow> Inl e | Inr c' \<Rightarrow> Inr (p, c'))"

fun sys_run ::
  "sys_event list \<Rightarrow> image_preloader \<times> image_cache \<Rightarrow> error + (image_preloader \<times> image_cache)" where
  "sys_run [] pc = Inr pc"
| "sys_run (ev # evs) pc =
     (case sys_step ev pc of Inl e \<Rightarrow> Inl e | Inr pc' \<Rightarrow> sys_run evs pc')"

text \<open>Every pending task has its path in the queue, and no path has two pending tasks.\<close>

definition inflight_inv :: "image_preloader \<Rightarrow> bool" where
  "inflight_inv p \<longleftrightarrow> distinct (executor p) \<and> set (executor p) = preload_queue p"

text \<open>The keys that \<open>cache.get\<close> touches during one \<open>preload_images\<close> call, in order.\<close>

definition touch :: "string \<Rightarrow> string list \<Rightarrow> string list" where
  "touch k ao = remove1 k ao @ [k]"

definition touched_paths :: "string list \<Rightarrow> image_preloader \<Rightarrow> image_cache \<Rightarrow> string list" where
  "touched_paths paths p c = filter (\<lambda>k. k \<notin> preload_queue p \<and> in_cache k c) paths"

section \<open>The viewport state of \<open>main\<close>\<close>

text \<open>
  The local variables of \<open>main\<close> that its slideshow check and its event handlers read and
  write. \<open>zoom\<close> is a Python float; the model keeps it as the real number it denotes and
  takes the rounding of a real result to a float, \<open>fl\<close>, as a parameter, so that the
  literal \<open>1.1\<close> is \<open>fl (11/10)\<close> and \<open>zoom * 1.1\<close> is \<open>fl (zoom * fl (11/10))\<close>.
  Times are the milliseconds of \<open>pygame.time.get_ticks()\<close>.
\<close>

record viewer =
  images :: "string list"
  current_index :: int
  running :: bool
  image_cache :: image_cache
  zoom :: real
  pan_x :: int
  pan_y :: int
  slideshow_active :: bool
  slideshow_delay :: int
  last_slide_time :: int
  art_mode :: bool
  mosaic_mode :: bool

definition main_init :: "(real \<Rightarrow> real) \<Rightarrow> string list \<Rightarrow> int \<Rightarrow> viewer" where
  "main_init fl imgs ticks =
     \<lparr>images = imgs, current_index = 0, running = True,
      image_cache = ImageCache_init 500, zoom = fl 1, pan_x = 0, pan_y = 0,
      slideshow_active = False, slideshow_delay = 3000, last_slide_time = ticks,
      art_mode = False, mosaic_mode = False\<rparr>"

text \<open>Lines 397 to 402, run in every frame that was drawn, in mosaic mode or not;
  \<open>%\<close> by the length of an empty list raises.\<close>

definition handle_slideshow :: "int \<Rightarrow> viewer \<Rightarrow> error + viewer" where
  "handle_slideshow current_time v =
     (if slideshow_active v then
        (if current_time - last_slide_time v > slideshow_delay v then
           (if images v = [] then Inl ZeroDivisionError
            else Inr (v\<lparr>current_index := (current_index v + 1) mod int (length (images v)),
                         last_slide_time := current_time\<rparr>))
         else Inr v)
      else Inr v)"

text \<open>
  The events of the handler that change this state. The keys that print or call the file
  system (H, C, Delete, 1 to 9, Caps Lock) are left out; \<open>K_other\<close> is a key no branch
  matches.
\<close>

datatype key = K_r | K_q | K_RIGHT | K_LEFT | K_m | K_a | K_SPACE | K_other

datatype event =
    QUIT
  | MOUSEBUTTONDOWN int
  | MOUSEMOTION bool int int
  | KEYDOWN key

definition zoom_in :: "(real \<Rightarrow> real) \<Rightarrow> real \<Rightarrow> real" where
  "zoom_in fl z = min (fl 4) (fl (z * fl (11 / 10)))"

definition zoom_out :: "(real \<Rightarrow> real) \<Rightarrow> real \<Rightarrow> real" where
  "zoom_out fl z = max (fl (1 / 10)) (fl (z / fl (11 / 10)))"

fun handle_key :: "(real \<Rightarrow> real) \<Rightarrow> key \<Rightarrow> viewer \<Rightarrow> error + viewer" where
  "handle_key fl K_r v = Inr (v\<lparr>zoom := fl 1, pan_x := 0, pan_y := 0\<rparr>)"
| "handle_key fl K_q v = Inr (v\<lparr>running := False\<rparr>)"
| "handle_key fl K_RIGHT v =
     (if images v = [] then Inl ZeroDivisionError
      else Inr (v\<lparr>current_index := (current_index v + 1) mod int (length (images v))\<rparr>))"
| "handle_key fl K_LEFT v =
     (if images v = [] then Inl ZeroDivisionError
      else Inr (v\<lparr>current_index := (current_index v - 1) mod int (length (images v))\<rparr>))"
| "handle_key fl K_m v = Inr (v\<lparr>mosaic_mode := \<not> mosaic_mode v\<rparr>)"
| "handle_key fl K_a v =
     Inr (v\<lparr>art_mode := \<not> art_mode v, image_cache := cache_clear (image_cache v)\<rparr>)"
| "handle_key fl K_SPACE v = Inr (v\<lparr>slideshow_active := \<not> slideshow_active v\<rparr>)"
| "handle_key fl K_other v = Inr v"

fun handle_event :: "(real \<Rightarrow> real) \<Rightarrow> event \<Rightarrow> viewer \<Rightarrow> error + viewer" where
  "handle_event fl QUIT v = Inr (v\<lparr>running := False\<rparr>)"
| "handle_event fl (MOUSEBUTTONDOWN button) v =
     (if button = 4 then Inr (v\<lparr>zoom := zoom_in fl (zoom v)\<rparr>)
      else if button = 5 then Inr (v\<lparr>zoom := zoom_out fl (zoom v)\<rparr>)
      else Inr v)"
| "handle_event fl (MOUSEMOTION left dx dy) v =
     (if left then Inr (v\<lparr>pan_x := pan_x v + dx, pan_y := pan_y v + dy\<rparr>) else Inr v)"
| "handle_event fl (KEYDOWN k) v = handle_key fl k v"

fun handle_events :: "(real \<Rightarrow> real) \<Rightarrow> event list \<Rightarrow> viewer \<Rightarrow> error + viewer" where
  "handle_events fl [] v = Inr v"
| "handle_events fl (ev # evs) v =
     (case handle_event fl ev v of Inl e \<Rightarrow> Inl e | Inr v' \<Rightarrow> handle_events fl evs v')"

definition is_zoom_event :: "event \<Rightarrow> bool" where
  "is_zoom_event ev = (case ev of MOUSEBUTTONDOWN b \<Rightarrow> b = 4 \<or> b = 5 | _ \<Rightarrow> False)"

text \<open>What the bounds need of the rounding: it is monotone, it rounds a float to itself,
  and 0, 1 and 4 are floats.\<close>

definition rounding :: "(real \<Rightarrow> real) \<Rightarrow> bool" where
  "rounding fl \<longleftrightarrow>
     mono fl \<and> fl \<circ> fl = fl \<and> fl 0 = 0 \<and> fl 1 = 1 \<and> fl 4 = 4"

section \<open>Properties of the cache\<close>

declare evict_loop.simps [simp del]

lemma get_surface_size_nonneg: "0 \<le> get_surface_size s"
  by (simp add: get_surface_size_def)

lemma sum_footprints_nonneg:
  "0 \<le> sum_list (map (\<lambda>(k, s). get_surface_size s) al)"
  by (induction al) (auto simp: get_surface_size_nonneg)

lemma sum_footprints_delete:
  "distinct (map fst al) \<Longrightarrow> map_of al k = Some s \<Longrightarrow>
   sum_list (map (\<lambda>(k, s). get_surface_size s) (AList.delete k al)) =
   sum_list (map (\<lambda>(k, s). get_surface_size s) al) - get_surface_size s"
proof (induction al)
  case Nil
  then show ?case by simp
next
  case (Cons p al)
  obtain k' s' where p: "p = (k', s')" by (cases p)
  show ?case
  proof (cases "k' = k")
    case True
    with Cons.prems p have "k \<notin> fst ` set al" "s' = s" by auto
    then show ?thesis using p True by simp
  next
    case False
    with Cons p show ?thesis by simp
  qed
qed

lemma sum_footprints_update_new:
  "map_of al k = None \<Longrightarrow>
   sum_list (map (\<lambda>(k, s). get_surface_size s) (AList.update k s al)) =
   sum_list (map (\<lambda>(k, s). get_surface_size s) al) + get_surface_size s"
  by (induction al) (auto split: if_splits)

lemma sum_footprints_update_old:
  "map_of al k = Some old \<Longrightarrow>
   sum_list (map (\<lambda>(k, s). get_surface_size s) (AList.update k s al)) =
   sum_list (map (\<lambda>(k, s). get_surface_size s) al) - get_surface_size old + get_surface_size s"
  by (induction al) (auto split: if_splits)

lemma evict_oldest_ok:
  assumes "cache_ok c" "access_order c \<noteq> []"
  shows "cache_ok (evict_oldest c)"
proof -
  obtain k ks where ao: "access_order c = k # ks" using assms(2) by (cases "access_order c") auto
  show ?thesis
  proof (cases "map_of (cache c) k")
    case None
    then have "k \<notin> fst ` set (cache c)" by (simp add: map_of_eq_None_iff)
    with assms(1) ao None show ?thesis
      by (auto simp: cache_ok_def evict_oldest_def cache_keys_def total_footprint_def)
  next
    case (Some s)
    have d: "distinct (map fst (cache c))" using assms(1) by (simp add: cache_ok_def)
    have "fst ` set (AList.delete k (cache c)) \<subseteq> set ks"
      using assms(1) ao by (auto simp: cache_ok_def cache_keys_def AList.delete_eq)
    with assms(1) ao Some d show ?thesis
      by (simp add: cache_ok_def evict_oldest_def cache_keys_def total_footprint_def
          sum_footprints_delete distinct_delete)
  qed
qed

lemma evict_oldest_max: "max_memory (evict_oldest c) = max_memory c"
  by (simp add: evict_oldest_def Let_def split: option.splits)

lemma evict_loop_ok: "cache_ok c \<Longrightarrow> cache_ok (evict_loop sz c)"
proof (induction sz c rule: evict_loop.induct)
  case (1 sz c)
  show ?case
  proof (cases "current_memory c + sz > max_memory c \<and> access_order c \<noteq> []")
    case True
    with 1 show ?thesis by (subst evict_loop.simps) (simp add: evict_oldest_ok)
  next
    case False
    with 1 show ?thesis by (subst evict_loop.simps) auto
  qed
qed

lemma evict_loop_max: "max_memory (evict_loop sz c) = max_memory c"
proof (induction sz c rule: evict_loop.induct)
  case (1 sz c)
  then show ?case by (subst evict_loop.simps) (simp add: evict_oldest_max)
qed

lemma evict_loop_post:
  "current_memory (evict_loop sz c) + sz \<le> max_memory c \<or> access_order (evict_loop sz c) = []"
proof (induction sz c rule: evict_loop.induct)
  case (1 sz c)
  show ?case
  proof (cases "current_memory c + sz > max_memory c \<and> access_order c \<noteq> []")
    case True
    with 1 show ?thesis by (subst (1 2) evict_loop.simps) (simp add: evict_oldest_max)
  next
    case False
    then show ?thesis by (subst (1 2) evict_loop.simps) auto
  qed
qed

lemma set_touch: "set xs \<subseteq> insert k (set (remove1 k xs))"
  by (induction xs) auto

lemma get_ok:
  assumes "cache_ok c"
  shows "\<exists>r c'. get path c = Inr (r, c') \<and> cache_ok c' \<and> cache c' = cache c \<and>
           max_memory c' = max_memory c \<and> r = map_of (cache c) path"
proof (cases "in_cache path c")
  case True
  then have "path \<in> fst ` set (cache c)"
    by (simp add: in_cache_def map_of_eq_None_iff)
  with assms have "path \<in> set (access_order c)"
    by (auto simp: cache_ok_def cache_keys_def)
  with assms True set_touch[of "access_order c" path] show ?thesis
    by (auto simp: get_def deque_remove_def cache_ok_def cache_keys_def total_footprint_def)
next
  case False
  with assms show ?thesis by (simp add: get_def in_cache_def)
qed

lemma add_surface_new_ok:
  assumes "cache_ok c" "map_of (cache c) path = None"
  shows "cache_ok (add_surface path s c)"
  using assms
  by (auto simp: cache_ok_def add_surface_def cache_keys_def total_footprint_def
      sum_footprints_update_new distinct_update dom_update)

lemma put_ok:
  assumes "cache_ok c"
  shows "\<exists>c'. put path surface c = Inr c' \<and> cache_ok c' \<and> max_memory c' = max_memory c"
proof (cases surface)
  case None
  with assms show ?thesis by (simp add: put_def)
next
  case (Some s)
  define c1 where "c1 = evict_loop (get_surface_size s) c"
  have ok1: "cache_ok c1" and m1: "max_memory c1 = max_memory c"
    using assms by (simp_all add: c1_def evict_loop_ok evict_loop_max)
  show ?thesis
  proof (cases "map_of (cache c1) path")
    case None
    with Some ok1 m1 show ?thesis
      by (simp add: put_def c1_def[symmetric] add_surface_new_ok) (simp add: add_surface_def)
  next
    case (Some old)
    then have "path \<in> fst ` set (cache c1)" by (metis map_of_eq_None_iff option.distinct(1))
    with ok1 have mem: "path \<in> set (access_order c1)" by (auto simp: cache_ok_def cache_keys_def)
    let ?c2 = "c1\<lparr>access_order := remove1 path (access_order c1),
                  current_memory := current_memory c1 - get_surface_size old\<rparr>"
    have "cache_ok (add_surface path s ?c2)"
      using ok1 Some mem set_touch[of "access_order c1" path]
      by (auto simp: cache_ok_def add_surface_def cache_keys_def total_footprint_def
          sum_footprints_update_old distinct_update dom_update)
    with \<open>surface = Some s\<close> Some mem m1 show ?thesis
      by (simp add: put_def c1_def[symmetric] deque_remove_def) (simp add: add_surface_def)
  qed
qed

lemma put_bound:
  assumes "cache_ok c" "put path (Some s) c = Inr c'" "get_surface_size s \<le> max_memory c"
  shows "total_footprint c' \<le> max_memory c"
proof -
  define c1 where "c1 = evict_loop (get_surface_size s) c"
  have ok1: "cache_ok c1" using assms(1) by (simp add: c1_def evict_loop_ok)
  have post: "current_memory c1 + get_surface_size s \<le> max_memory c \<or> access_order c1 = []"
    unfolding c1_def by (rule evict_loop_post)
  have fit: "total_footprint c1 + get_surface_size s \<le> max_memory c"
  proof (rule disjE[OF post])
    assume "current_memory c1 + get_surface_size s \<le> max_memory c"
    with ok1 show ?thesis by (simp add: cache_ok_def)
  next
    assume "access_order c1 = []"
    with ok1 have "cache c1 = []" by (simp add: cache_ok_def cache_keys_def)
    with assms(3) show ?thesis by (simp add: total_footprint_def)
  qed
  show ?thesis
  proof (cases "map_of (cache c1) path")
    case None
    with assms(2) have "c' = add_surface path s c1" by (simp add: put_def c1_def[symmetric])
    with None fit show ?thesis
      by (simp add: add_surface_def total_footprint_def sum_footprints_update_new)
  next
    case (Some old)
    with assms(2) have "cache c' = AList.update path s (cache c1)"
      by (auto simp: put_def c1_def[symmetric] add_surface_def split: sum.splits)
    with Some fit get_surface_size_nonneg[of old] show ?thesis
      by (simp add: total_footprint_def sum_footprints_update_old)
  qed
qed

lemma total_footprint_nonneg: "0 \<le> total_footprint c"
  by (simp add: total_footprint_def sum_footprints_nonneg)

lemma cache_clear_ok: "cache_ok c \<Longrightarrow> cache_ok (cache_clear c)"
  using total_footprint_nonneg[of c]
  by (simp add: cache_ok_def cache_clear_def cache_keys_def total_footprint_def)

lemma apply_op_ok:
  assumes "cache_ok c"
  shows "\<exists>c'. apply_op x c = Inr c' \<and> cache_ok c' \<and> max_memory c' = max_memory c"
proof (cases x)
  case (Put path surface)
  with put_ok[OF assms, of path surface] show ?thesis by simp
next
  case (Get path)
  with get_ok[OF assms, of path] show ?thesis by auto
next
  case Clear
  with assms show ?thesis by (simp add: cache_clear_ok) (simp add: cache_clear_def)
qed

lemma apply_op_bound:
  assumes "cache_ok c" "apply_op x c = Inr c'" "op_footprint x \<le> max_memory c"
    "total_footprint c \<le> max_memory c"
  shows "total_footprint c' \<le> max_memory c"
proof (cases x)
  case (Put path surface)
  show ?thesis
  proof (cases surface)
    case None
    with Put assms show ?thesis by (simp add: put_def)
  next
    case (Some s)
    with Put assms put_bound[of c path s c'] show ?thesis by (simp add: op_footprint_def)
  qed
next
  case (Get path)
  with get_ok[OF assms(1), of path] assms show ?thesis by (auto simp: total_footprint_def)
next
  case Clear
  with assms have "total_footprint c' = 0" by (auto simp: cache_clear_def total_footprint_def)
  with assms(4) total_footprint_nonneg[of c] show ?thesis by simp
qed

lemma run_ops_bound:
  assumes "cache_ok c" "total_footprint c \<le> max_memory c"
    "\<forall>x\<in>set ops. op_footprint x \<le> max_memory c"
  shows "\<exists>c'. run_ops ops c = Inr c' \<and> cache_ok c' \<and> max_memory c' = max_memory c \<and>
           total_footprint c' \<le> max_memory c"
  using assms
proof (induction ops arbitrary: c)
  case Nil
  then show ?case by simp
next
  case (Cons x ops)
  from apply_op_ok[OF Cons.prems(1), of x] obtain c1 where
    c1: "apply_op x c = Inr c1" "cache_ok c1" "max_memory c1 = max_memory c" by blast
  have "total_footprint c1 \<le> max_memory c"
    using apply_op_bound[OF Cons.prems(1) c1(1)] Cons.prems by simp
  with Cons.IH[of c1] c1 Cons.prems(3) show ?case by simp
qed

subsection \<open>The byte budget\<close>

text \<open>
  C1 (as amended). Take a cache with byte budget \<open>B \<ge> 0\<close> and any sequence of \<open>Put\<close>,
  \<open>Get\<close> and dict-clearing operations in which no image put has a footprint
  (width * height * 4) above \<open>B\<close>. Then every operation returns, and after each of them the
  sum of the footprints of the entries held is at most \<open>B\<close>.
\<close>

theorem footprint_within_budget:
  assumes "0 \<le> B" and "\<forall>x\<in>set ops. op_footprint x \<le> B"
  shows "\<forall>n\<le>length ops. \<exists>c. run_ops (take n ops) ((ImageCache_init mb)\<lparr>max_memory := B\<rparr>) = Inr c
           \<and> total_footprint c \<le> B"
proof (intro allI impI)
  fix n assume "n \<le> length ops"
  let ?c0 = "(ImageCache_init mb)\<lparr>max_memory := B\<rparr>"
  have ok: "cache_ok ?c0" and tf: "total_footprint ?c0 \<le> max_memory ?c0"
    using assms(1) by (simp_all add: cache_ok_def ImageCache_init_def cache_keys_def total_footprint_def)
  have "\<forall>x\<in>set (take n ops). op_footprint x \<le> max_memory ?c0"
    using assms(2) by (auto dest: in_set_takeD)
  from run_ops_bound[OF ok tf this]
  show "\<exists>c. run_ops (take n ops) ?c0 = Inr c \<and> total_footprint c \<le> B" by auto
qed

theorem footprint_within_budget_witness:
  "(0::int) \<le> 1000 \<and>
   list_all (\<lambda>x. op_footprint x \<le> 1000)
     [Put ''a'' (Some \<lparr>get_width = 10, get_height = 10\<rparr>), Get ''a'', Clear, Put ''b'' None] \<and>
   (\<exists>c. run_ops
          (take 4 [Put ''a'' (Some \<lparr>get_width = 10, get_height = 10\<rparr>), Get ''a'', Clear,
                   Put ''b'' None])
          ((ImageCache_init 500)\<lparr>max_memory := 1000\<rparr>) = Inr c \<and>
        total_footprint c \<le> 1000)"
proof -
  let ?ops = "[Put ''a'' (Some \<lparr>get_width = 10, get_height = 10\<rparr>), Get ''a'', Clear, Put ''b'' None]"
  have h: "\<forall>x\<in>set ?ops. op_footprint x \<le> 1000"
    by (simp add: op_footprint_def get_surface_size_def)
  have b: "(0::int) \<le> 1000" by simp
  have "\<exists>c. run_ops (take 4 ?ops) ((ImageCache_init 500)\<lparr>max_memory := 1000\<rparr>) = Inr c \<and>
          total_footprint c \<le> 1000"
    using footprint_within_budget[OF b h, of 500, rule_format, of 4] by simp
  with h show ?thesis by simp
qed

text \<open>
  As stated, without the bound on the images, C1 fails: a cache of 1 MiB that is given one
  surface of 1000 by 1000 pixels holds 4000000 bytes afterwards.
\<close>

theorem oversized_put_exceeds_budget:
  "map_sum id (\<lambda>c. (total_footprint c, max_memory c))
     (run_ops [Put ''big.png'' (Some \<lparr>get_width = 1000, get_height = 1000\<rparr>)] (ImageCache_init 1))
   = Inr (4000000, 1048576)"
  by (simp add: put_def evict_loop.simps ImageCache_init_def get_surface_size_def
      add_surface_def total_footprint_def)

subsection \<open>An image larger than the budget\<close>

lemma evict_loop_drain:
  "cache_ok c \<Longrightarrow> max_memory c < sz \<Longrightarrow> access_order (evict_loop sz c) = []"
proof (induction sz c rule: evict_loop.induct)
  case (1 sz c)
  have "0 \<le> current_memory c"
    using "1.prems"(1) total_footprint_nonneg[of c] by (simp add: cache_ok_def)
  with "1.prems"(2) have over: "current_memory c + sz > max_memory c" by simp
  show ?case
  proof (cases "access_order c = []")
    case True
    then show ?thesis by (subst evict_loop.simps) simp
  next
    case False
    with over 1 show ?thesis
      by (subst evict_loop.simps) (simp add: evict_oldest_ok evict_oldest_max)
  qed
qed

text \<open>
  C3 (as amended). For every key and every image whose footprint alone exceeds the byte
  budget, \<open>put\<close> on a cache in a state that the operations reach does not reject the image:
  it evicts every entry, inserts the image, and leaves the cache holding exactly that key,
  so that a \<open>get\<close> of the key right after returns the image.
\<close>

theorem oversized_put_replaces_all:
  assumes "cache_ok c" and "max_memory c < get_surface_size s"
  shows "\<exists>c'. put path (Some s) c = Inr c' \<and> cache c' = [(path, s)] \<and>
           access_order c' = [path] \<and> get path c' = Inr (Some s, c')"
proof -
  define c1 where "c1 = evict_loop (get_surface_size s) c"
  have ao: "access_order c1 = []"
    unfolding c1_def using assms by (rule evict_loop_drain)
  have "cache_ok c1" unfolding c1_def using assms(1) by (rule evict_loop_ok)
  with ao have em: "cache c1 = []" by (simp add: cache_ok_def cache_keys_def)
  have p: "put path (Some s) c = Inr (add_surface path s c1)"
    using em by (simp add: put_def c1_def[symmetric])
  have "get path (add_surface path s c1) = Inr (Some s, add_surface path s c1)"
    using em ao by (simp add: get_def in_cache_def add_surface_def deque_remove_def)
  with p em ao show ?thesis by (simp add: add_surface_def)
qed

theorem oversized_put_replaces_all_witness:
  "cache_ok (ImageCache_init 1) \<and>
   max_memory (ImageCache_init 1) < get_surface_size \<lparr>get_width = 1000, get_height = 1000\<rparr> \<and>
   (\<exists>c'. put ''big.png'' (Some \<lparr>get_width = 1000, get_height = 1000\<rparr>) (ImageCache_init 1) = Inr c' \<and>
         cache c' = [(''big.png'', \<lparr>get_width = 1000, get_height = 1000\<rparr>)] \<and>
         access_order c' = [''big.png''] \<and>
         get ''big.png'' c' = Inr (Some \<lparr>get_width = 1000, get_height = 1000\<rparr>, c'))"
proof -
  have ok: "cache_ok (ImageCache_init 1)"
    by (simp add: cache_ok_def ImageCache_init_def cache_keys_def total_footprint_def)
  have big: "max_memory (ImageCache_init 1) < get_surface_size \<lparr>get_width = 1000, get_height = 1000\<rparr>"
    by (simp add: ImageCache_init_def get_surface_size_def)
  from oversized_put_replaces_all[OF ok big, of "''big.png''"] ok big show ?thesis by simp
qed

text \<open>
  As stated, with the insertion rejected, C3 fails: a cache of 1 MiB is changed by the
  \<open>put\<close> of a surface of 4000000 bytes, and the \<open>get\<close> after it returns that surface.
\<close>

theorem oversized_put_is_cached:
  "put ''big.png'' (Some \<lparr>get_width = 1000, get_height = 1000\<rparr>) (ImageCache_init 1) \<noteq>
     Inr (ImageCache_init 1) \<and>
   (case put ''big.png'' (Some \<lparr>get_width = 1000, get_height = 1000\<rparr>) (ImageCache_init 1) of
      Inl e \<Rightarrow> Inl e
    | Inr c \<Rightarrow> map_sum id fst (get ''big.png'' c)) =
     Inr (Some \<lparr>get_width = 1000, get_height = 1000\<rparr>)"
  by (simp add: put_def get_def evict_loop.simps ImageCache_init_def get_surface_size_def
      add_surface_def in_cache_def deque_remove_def)

subsection \<open>Eviction in the order of the deque\<close>

lemma keys_delete: "fst ` set (AList.delete k al) = fst ` set al - {k}"
  by (induction al) auto

lemma without_keys_Nil: "without_keys [] al = al"
  by (simp add: without_keys_def)

lemma without_keys_Cons: "without_keys ks (AList.delete k al) = without_keys (k # ks) al"
  by (induction al) (auto simp: without_keys_def)

lemma evict_oldest_inv:
  assumes "cache_inv c" "access_order c = k # ks"
  shows "\<exists>s. map_of (cache c) k = Some s \<and>
           evict_oldest c = c\<lparr>access_order := ks,
                               current_memory := current_memory c - get_surface_size s,
                               cache := AList.delete k (cache c)\<rparr> \<and>
           cache_inv (evict_oldest c)"
proof -
  have "k \<in> fst ` set (cache c)" using assms by (auto simp: cache_inv_def cache_keys_def)
  then obtain s where s: "map_of (cache c) k = Some s"
    by (metis map_of_eq_None_iff not_Some_eq)
  have eq: "evict_oldest c = c\<lparr>access_order := ks,
                               current_memory := current_memory c - get_surface_size s,
                               cache := AList.delete k (cache c)\<rparr>"
    using assms(2) s by (simp add: evict_oldest_def)
  have d: "distinct (map fst (cache c))" using assms(1) by (simp add: cache_inv_def)
  have "set ks = fst ` set (cache c) - {k}"
    using assms by (auto simp: cache_inv_def cache_keys_def)
  then have "cache_inv (evict_oldest c)"
    using assms d s unfolding eq
    by (simp add: cache_inv_def cache_keys_def total_footprint_def keys_delete
        sum_footprints_delete distinct_delete)
  with s eq show ?thesis by blast
qed

lemma memory_after_0: "memory_after c 0 = current_memory c"
  by (simp add: memory_after_def)

lemma memory_after_Suc:
  assumes "distinct (access_order c)" "access_order c = k # ks" "map_of (cache c) k = Some s"
  shows "memory_after (c\<lparr>access_order := ks,
                          current_memory := current_memory c - get_surface_size s,
                          cache := AList.delete k (cache c)\<rparr>) m = memory_after c (Suc m)"
proof -
  have "k \<notin> set (take m ks)" using assms(1,2) by (auto dest: in_set_takeD)
  then have "sum_list (map (\<lambda>k'. case map_of (AList.delete k (cache c)) k' of
                          Some s \<Rightarrow> get_surface_size s | None \<Rightarrow> 0) (take m ks)) =
             sum_list (map (\<lambda>k'. case map_of (cache c) k' of
                          Some s \<Rightarrow> get_surface_size s | None \<Rightarrow> 0) (take m ks))"
    by (intro arg_cong[where f = sum_list] map_cong) (auto simp: delete_conv)
  then show ?thesis unfolding memory_after_def using assms(2,3) by simp
qed

lemma evict_loop_lru:
  "cache_inv c \<Longrightarrow>
   \<exists>n\<le>length (access_order c).
     evict_loop sz c = c\<lparr>access_order := drop n (access_order c),
                          current_memory := memory_after c n,
                          cache := without_keys (take n (access_order c)) (cache c)\<rparr> \<and>
     cache_inv (evict_loop sz c) \<and>
     (\<forall>m<n. max_memory c < memory_after c m + sz) \<and>
     (memory_after c n + sz \<le> max_memory c \<or> n = length (access_order c))"
proof (induction sz c rule: evict_loop.induct)
  case (1 sz c)
  show ?case
  proof (cases "current_memory c + sz > max_memory c \<and> access_order c \<noteq> []")
    case False
    have "evict_loop sz c = c" using False by (subst evict_loop.simps) auto
    with False "1.prems" show ?thesis
      by (intro exI[of _ 0]) (auto simp: memory_after_0 without_keys_Nil)
  next
    case True
    then obtain k ks where ao: "access_order c = k # ks" by (cases "access_order c") auto
    from evict_oldest_inv[OF "1.prems" ao] obtain s where
      s: "map_of (cache c) k = Some s" and
      eq: "evict_oldest c = c\<lparr>access_order := ks,
                               current_memory := current_memory c - get_surface_size s,
                               cache := AList.delete k (cache c)\<rparr>" and
      inv1: "cache_inv (evict_oldest c)" by blast
    have d: "distinct (access_order c)" using "1.prems" by (simp add: cache_inv_def)
    have ma: "\<And>m. memory_after (evict_oldest c) m = memory_after c (Suc m)"
      unfolding eq by (rule memory_after_Suc[OF d ao s])
    have unf: "evict_loop sz c = evict_loop sz (evict_oldest c)"
      using True by (subst evict_loop.simps) simp
    from "1.IH"[OF True inv1] obtain n where
      n: "n \<le> length (access_order (evict_oldest c))"
      "evict_loop sz (evict_oldest c) =
         (evict_oldest c)\<lparr>access_order := drop n (access_order (evict_oldest c)),
                          current_memory := memory_after (evict_oldest c) n,
                          cache := without_keys (take n (access_order (evict_oldest c)))
                                     (cache (evict_oldest c))\<rparr>"
      "cache_inv (evict_loop sz (evict_oldest c))"
      "\<forall>m<n. max_memory (evict_oldest c) < memory_after (evict_oldest c) m + sz"
      "memory_after (evict_oldest c) n + sz \<le> max_memory (evict_oldest c) \<or>
       n = length (access_order (evict_oldest c))"
      by blast
    have aok: "access_order (evict_oldest c) = ks" and cak: "cache (evict_oldest c) = AList.delete k (cache c)"
      by (simp_all add: eq)
    have 1: "Suc n \<le> length (access_order c)" using n(1) ao aok by simp
    have 2: "evict_loop sz c = c\<lparr>access_order := drop (Suc n) (access_order c),
                          current_memory := memory_after c (Suc n),
                          cache := without_keys (take (Suc n) (access_order c)) (cache c)\<rparr>"
      unfolding unf n(2) ma aok cak without_keys_Cons by (simp add: eq ao)
    have 3: "\<forall>m<Suc n. max_memory c < memory_after c m + sz"
    proof (intro allI impI)
      fix m assume "m < Suc n"
      show "max_memory c < memory_after c m + sz"
      proof (cases m)
        case 0
        with True show ?thesis by (simp add: memory_after_0)
      next
        case (Suc m')
        with \<open>m < Suc n\<close> n(4) ma show ?thesis by (simp add: evict_oldest_max)
      qed
    qed
    have 4: "memory_after c (Suc n) + sz \<le> max_memory c \<or> Suc n = length (access_order c)"
      using n(5) ma aok ao by (simp add: evict_oldest_max)
    from 1 2 3 4 n(3) unf show ?thesis by (intro exI[of _ "Suc n"]) simp
  qed
qed

lemma get_hit_inv:
  assumes "cache_inv c" "in_cache k c"
  shows "\<exists>c'. get k c = Inr (map_of (cache c) k, c') \<and> cache_inv c' \<and> cache c' = cache c \<and>
           access_order c' = remove1 k (access_order c) @ [k]"
proof -
  have "k \<in> fst ` set (cache c)"
    using assms(2) by (simp add: in_cache_def map_of_eq_None_iff)
  with assms(1) have mem: "k \<in> set (access_order c)" by (simp add: cache_inv_def cache_keys_def)
  have "cache_inv (c\<lparr>access_order := remove1 k (access_order c) @ [k]\<rparr>)"
    using assms(1) mem by (auto simp: cache_inv_def cache_keys_def total_footprint_def)
  with assms(2) mem show ?thesis by (simp add: get_def deque_remove_def)
qed

lemma put_inv:
  assumes "cache_inv c1"
  shows "\<exists>c'. (case map_of (cache c1) path of
             Some old_surface \<Rightarrow>
               (case deque_remove path (access_order c1) of
                  Inl e \<Rightarrow> Inl e
                | Inr ao \<Rightarrow>
                    Inr (add_surface path s
                          (c1\<lparr>access_order := ao,
                              current_memory := current_memory c1 - get_surface_size old_surface\<rparr>)))
           | None \<Rightarrow> Inr (add_surface path s c1)) = Inr c' \<and> cache_inv c' \<and>
           cache c' = AList.update path s (cache c1) \<and>
           access_order c' = remove1 path (access_order c1) @ [path]"
proof (cases "map_of (cache c1) path")
  case None
  then have "path \<notin> fst ` set (cache c1)" by (simp add: map_of_eq_None_iff)
  with assms have nm: "path \<notin> set (access_order c1)" by (simp add: cache_inv_def cache_keys_def)
  have "cache_inv (add_surface path s c1)"
    using assms None nm
    by (auto simp: cache_inv_def add_surface_def cache_keys_def total_footprint_def
        sum_footprints_update_new distinct_update dom_update)
  with None nm show ?thesis by (simp add: remove1_idem) (simp add: add_surface_def)
next
  case (Some old)
  then have "path \<in> fst ` set (cache c1)" by (metis map_of_eq_None_iff option.distinct(1))
  with assms have mem: "path \<in> set (access_order c1)" by (simp add: cache_inv_def cache_keys_def)
  let ?c2 = "c1\<lparr>access_order := remove1 path (access_order c1),
                current_memory := current_memory c1 - get_surface_size old\<rparr>"
  have "cache_inv (add_surface path s ?c2)"
    using assms Some mem
    by (auto simp: cache_inv_def add_surface_def cache_keys_def total_footprint_def
        sum_footprints_update_old distinct_update dom_update)
  with Some mem show ?thesis by (simp add: deque_remove_def) (simp add: add_surface_def)
qed

lemma run_scenario:
  assumes "distinct [a, b, c]" "get_surface_size sa = 400" "get_surface_size sb = 400"
    "get_surface_size sc = 400"
  shows "run_ops [Put a (Some sa), Put b (Some sb), Get a, Put c (Some sc)]
           ((ImageCache_init mb)\<lparr>max_memory := 1000\<rparr>) =
         Inr \<lparr>cache = [(a, sa), (c, sc)], access_order = [a, c], max_memory = 1000,
              current_memory = 800\<rparr>"
  using assms
  by (auto simp: put_def get_def evict_loop.simps ImageCache_init_def add_surface_def
      in_cache_def deque_remove_def evict_oldest_def)

text \<open>
  Eviction while dict and deque agree (\<open>cache_inv\<close>, kept by \<open>get\<close> and \<open>put\<close> but lost at
  \<open>cache.cache.clear()\<close>): \<open>put\<close> evicts the first \<open>n\<close> keys of the deque, oldest first,
  where \<open>n\<close> is the least number of evictions after which
  \<open>current_memory + footprint \<le> max_memory\<close>, or the whole deque when there is no such
  number; then it stores the entry and makes its key the last (most recent) of the deque.
  A \<open>get\<close> hit makes its key the last of the deque and changes nothing else. With budget
  1000 and three images of footprint 400 under distinct keys, \<open>Put a, Put b, Get a, Put d\<close>
  evicts exactly \<open>b\<close> and leaves \<open>a\<close> and \<open>d\<close> cached with \<open>current_memory = 800\<close>.
\<close>

theorem lru_eviction:
  assumes "cache_inv c"
  shows "(\<exists>n\<le>length (access_order c).
            (\<forall>m<n. max_memory c < memory_after c m + get_surface_size s) \<and>
            (memory_after c n + get_surface_size s \<le> max_memory c \<or> n = length (access_order c)) \<and>
            (\<exists>c'. put path (Some s) c = Inr c' \<and> cache_inv c' \<and>
                  cache c' = AList.update path s (without_keys (take n (access_order c)) (cache c)) \<and>
                  access_order c' = remove1 path (drop n (access_order c)) @ [path])) \<and>
         (in_cache k c \<longrightarrow>
            (\<exists>c'. get k c = Inr (map_of (cache c) k, c') \<and> cache_inv c' \<and> cache c' = cache c \<and>
                  access_order c' = remove1 k (access_order c) @ [k])) \<and>
         (distinct [a, b, d] \<and> get_surface_size sa = 400 \<and> get_surface_size sb = 400 \<and>
          get_surface_size sd = 400 \<longrightarrow>
            run_ops [Put a (Some sa), Put b (Some sb), Get a, Put d (Some sd)]
              ((ImageCache_init mb)\<lparr>max_memory := 1000\<rparr>) =
            Inr \<lparr>cache = [(a, sa), (d, sd)], access_order = [a, d], max_memory = 1000,
                 current_memory = 800\<rparr>)"
proof (intro conjI)
  from evict_loop_lru[OF assms, of "get_surface_size s"] obtain n where
    n: "n \<le> length (access_order c)"
    "evict_loop (get_surface_size s) c =
       c\<lparr>access_order := drop n (access_order c), current_memory := memory_after c n,
         cache := without_keys (take n (access_order c)) (cache c)\<rparr>"
    "cache_inv (evict_loop (get_surface_size s) c)"
    "\<forall>m<n. max_memory c < memory_after c m + get_surface_size s"
    "memory_after c n + get_surface_size s \<le> max_memory c \<or> n = length (access_order c)"
    by blast
  define c1 where "c1 = evict_loop (get_surface_size s) c"
  have c1: "cache c1 = without_keys (take n (access_order c)) (cache c)"
    "access_order c1 = drop n (access_order c)"
    unfolding c1_def n(2) by simp_all
  have inv1: "cache_inv c1" unfolding c1_def by (rule n(3))
  have p: "put path (Some s) c =
           (case map_of (cache c1) path of
             Some old_surface \<Rightarrow>
               (case deque_remove path (access_order c1) of
                  Inl e \<Rightarrow> Inl e
                | Inr ao \<Rightarrow>
                    Inr (add_surface path s
                          (c1\<lparr>access_order := ao,
                              current_memory := current_memory c1 - get_surface_size old_surface\<rparr>)))
           | None \<Rightarrow> Inr (add_surface path s c1))"
    unfolding c1_def by (simp add: put_def Let_def)
  from put_inv[OF inv1, of path s] obtain c' where
    "put path (Some s) c = Inr c'" "cache_inv c'"
    "cache c' = AList.update path s (cache c1)"
    "access_order c' = remove1 path (access_order c1) @ [path]"
    unfolding p[symmetric] by blast
  with n(1,4,5) c1
  show "\<exists>n\<le>length (access_order c).
            (\<forall>m<n. max_memory c < memory_after c m + get_surface_size s) \<and>
            (memory_after c n + get_surface_size s \<le> max_memory c \<or> n = length (access_order c)) \<and>
            (\<exists>c'. put path (Some s) c = Inr c' \<and> cache_inv c' \<and>
                  cache c' = AList.update path s (without_keys (take n (access_order c)) (cache c)) \<and>
                  access_order c' = remove1 path (drop n (access_order c)) @ [path])"
    by (intro exI[of _ n]) simp
next
  show "in_cache k c \<longrightarrow>
            (\<exists>c'. get k c = Inr (map_of (cache c) k, c') \<and> cache_inv c' \<and> cache c' = cache c \<and>
                  access_order c' = remove1 k (access_order c) @ [k])"
    using get_hit_inv[OF assms] by blast
next
  show "distinct [a, b, d] \<and> get_surface_size sa = 400 \<and> get_surface_size sb = 400 \<and>
          get_surface_size sd = 400 \<longrightarrow>
            run_ops [Put a (Some sa), Put b (Some sb), Get a, Put d (Some sd)]
              ((ImageCache_init mb)\<lparr>max_memory := 1000\<rparr>) =
            Inr \<lparr>cache = [(a, sa), (d, sd)], access_order = [a, d], max_memory = 1000,
                 current_memory = 800\<rparr>"
    using run_scenario[of a b d sa sb sd mb] by blast
qed

theorem lru_eviction_witness:
  "cache_inv \<lparr>cache = [(''a'', \<lparr>get_width = 10, get_height = 10\<rparr>),
                       (''b'', \<lparr>get_width = 10, get_height = 10\<rparr>)],
              access_order = [''b'', ''a''], max_memory = 1000, current_memory = 800\<rparr> \<and>
   in_cache ''a'' \<lparr>cache = [(''a'', \<lparr>get_width = 10, get_height = 10\<rparr>),
                            (''b'', \<lparr>get_width = 10, get_height = 10\<rparr>)],
                   access_order = [''b'', ''a''], max_memory = 1000, current_memory = 800\<rparr> \<and>
   distinct [''a'', ''b'', ''c''] \<and>
   get_surface_size \<lparr>get_width = 10, get_height = 10\<rparr> = 400 \<and>
   put ''c'' (Some \<lparr>get_width = 10, get_height = 10\<rparr>)
     \<lparr>cache = [(''a'', \<lparr>get_width = 10, get_height = 10\<rparr>),
               (''b'', \<lparr>get_width = 10, get_height = 10\<rparr>)],
      access_order = [''b'', ''a''], max_memory = 1000, current_memory = 800\<rparr> =
   Inr \<lparr>cache = [(''a'', \<lparr>get_width = 10, get_height = 10\<rparr>),
                  (''c'', \<lparr>get_width = 10, get_height = 10\<rparr>)],
        access_order = [''a'', ''c''], max_memory = 1000, current_memory = 800\<rparr> \<and>
   get ''a'' \<lparr>cache = [(''a'', \<lparr>get_width = 10, get_height = 10\<rparr>),
                       (''b'', \<lparr>get_width = 10, get_height = 10\<rparr>)],
              access_order = [''b'', ''a''], max_memory = 1000, current_memory = 800\<rparr> =
   Inr (Some \<lparr>get_width = 10, get_height = 10\<rparr>,
        \<lparr>cache = [(''a'', \<lparr>get_width = 10, get_height = 10\<rparr>),
                  (''b'', \<lparr>get_width = 10, get_height = 10\<rparr>)],
         access_order = [''b'', ''a''], max_memory = 1000, current_memory = 800\<rparr>) \<and>
   run_ops [Put ''a'' (Some \<lparr>get_width = 10, get_height = 10\<rparr>),
            Put ''b'' (Some \<lparr>get_width = 10, get_height = 10\<rparr>), Get ''a'',
            Put ''c'' (Some \<lparr>get_width = 10, get_height = 10\<rparr>)]
     ((ImageCache_init 500)\<lparr>max_memory := 1000\<rparr>) =
   Inr \<lparr>cache = [(''a'', \<lparr>get_width = 10, get_height = 10\<rparr>),
                  (''c'', \<lparr>get_width = 10, get_height = 10\<rparr>)],
        access_order = [''a'', ''c''], max_memory = 1000, current_memory = 800\<rparr>"
proof -
  let ?s = "\<lparr>get_width = 10, get_height = 10\<rparr>"
  let ?c = "\<lparr>cache = [(''a'', ?s), (''b'', ?s)], access_order = [''b'', ''a''],
             max_memory = 1000, current_memory = 800\<rparr>"
  have inv: "cache_inv ?c"
    by (auto simp: cache_inv_def cache_keys_def total_footprint_def get_surface_size_def)
  have hit: "in_cache ''a'' ?c" by (simp add: in_cache_def)
  have sz: "get_surface_size ?s = 400" by (simp add: get_surface_size_def)
  have d: "distinct [''a'', ''b'', ''c'']" by simp
  note th = lru_eviction[OF inv, of ?s "''c''" "''a''" "''a''" "''b''" "''c''" ?s ?s ?s 500]
  from th hit have g: "\<exists>c'. get ''a'' ?c = Inr (map_of (cache ?c) ''a'', c') \<and> cache_inv c' \<and>
      cache c' = cache ?c \<and> access_order c' = remove1 ''a'' (access_order ?c) @ [''a'']"
    by blast
  from th d sz have r: "run_ops [Put ''a'' (Some ?s), Put ''b'' (Some ?s), Get ''a'', Put ''c'' (Some ?s)]
     ((ImageCache_init 500)\<lparr>max_memory := 1000\<rparr>) =
     Inr \<lparr>cache = [(''a'', ?s), (''c'', ?s)], access_order = [''a'', ''c''], max_memory = 1000,
          current_memory = 800\<rparr>"
    by blast
  have p: "put ''c'' (Some ?s) ?c =
     Inr \<lparr>cache = [(''a'', ?s), (''c'', ?s)], access_order = [''a'', ''c''], max_memory = 1000,
          current_memory = 800\<rparr>"
    by (simp add: put_def evict_loop.simps evict_oldest_def get_surface_size_def add_surface_def)
  have g': "get ''a'' ?c = Inr (Some ?s, ?c)"
    using g by (simp add: get_def in_cache_def deque_remove_def)
  from inv hit d sz p g' r show ?thesis by simp
qed

subsection \<open>Eviction after the dict was cleared\<close>

text \<open>
  C2 at the failing input. In a cache of 1 MiB with surfaces of 300000 bytes:
  \<open>put a\<close>, the art-mode clear of the dict, \<open>put b\<close>, \<open>put a\<close> leave the dict holding
  \<open>b\<close> and \<open>a\<close> (600000 bytes) while the deque is \<open>[a, b, a]\<close> and \<open>current_memory\<close> is
  900000. The next \<open>put c\<close> pops the stale \<open>a\<close> at the front of the deque and deletes the
  entry of \<open>a\<close>, the key put last, although \<open>b\<close> is the least recently used key and the
  600000 bytes held plus 300000 fit the budget.
\<close>

theorem stale_key_evicts_most_recent:
  "run_ops [Put ''a.png'' (Some \<lparr>get_width = 300, get_height = 250\<rparr>), Clear,
            Put ''b.png'' (Some \<lparr>get_width = 300, get_height = 250\<rparr>),
            Put ''a.png'' (Some \<lparr>get_width = 300, get_height = 250\<rparr>)]
     (ImageCache_init 1) =
   Inr \<lparr>cache = [(''b.png'', \<lparr>get_width = 300, get_height = 250\<rparr>),
                  (''a.png'', \<lparr>get_width = 300, get_height = 250\<rparr>)],
        access_order = [''a.png'', ''b.png'', ''a.png''], max_memory = 1048576,
        current_memory = 900000\<rparr> \<and>
   put ''c.png'' (Some \<lparr>get_width = 300, get_height = 250\<rparr>)
     \<lparr>cache = [(''b.png'', \<lparr>get_width = 300, get_height = 250\<rparr>),
               (''a.png'', \<lparr>get_width = 300, get_height = 250\<rparr>)],
      access_order = [''a.png'', ''b.png'', ''a.png''], max_memory = 1048576,
      current_memory = 900000\<rparr> =
   Inr \<lparr>cache = [(''b.png'', \<lparr>get_width = 300, get_height = 250\<rparr>),
                  (''c.png'', \<lparr>get_width = 300, get_height = 250\<rparr>)],
        access_order = [''b.png'', ''a.png'', ''c.png''], max_memory = 1048576,
        current_memory = 900000\<rparr> \<and>
   total_footprint
     \<lparr>cache = [(''b.png'', \<lparr>get_width = 300, get_height = 250\<rparr>),
               (''a.png'', \<lparr>get_width = 300, get_height = 250\<rparr>)],
      access_order = [''a.png'', ''b.png'', ''a.png''], max_memory = 1048576,
      current_memory = 900000\<rparr> = 600000"
  by (simp add: put_def evict_loop.simps evict_oldest_def ImageCache_init_def
      get_surface_size_def add_surface_def cache_clear_def deque_remove_def total_footprint_def)

subsection \<open>Dict and deque hold the same keys\<close>

lemma init_cache_inv: "cache_inv ((ImageCache_init mb)\<lparr>max_memory := B\<rparr>)"
  by (simp add: cache_inv_def ImageCache_init_def cache_keys_def total_footprint_def)

lemma put_cache_inv:
  assumes "cache_inv c"
  shows "\<exists>c'. put path surface c = Inr c' \<and> cache_inv c'"
proof (cases surface)
  case None
  with assms show ?thesis by (simp add: put_def)
next
  case (Some s)
  from evict_loop_lru[OF assms, of "get_surface_size s"]
  have "cache_inv (evict_loop (get_surface_size s) c)" by blast
  from put_inv[OF this, of path s] Some show ?thesis
    unfolding put_def Let_def by auto
qed

lemma get_cache_inv:
  assumes "cache_inv c"
  shows "\<exists>r c'. get path c = Inr (r, c') \<and> cache_inv c'"
proof (cases "in_cache path c")
  case True
  from get_hit_inv[OF assms True] show ?thesis by blast
next
  case False
  with assms show ?thesis by (simp add: get_def)
qed

lemma run_ops_cache_inv:
  "cache_inv c \<Longrightarrow> Clear \<notin> set ops \<Longrightarrow>
   \<exists>c'. run_ops ops c = Inr c' \<and> cache_inv c' \<and> cache_keys c' = set (access_order c')"
proof (induction ops arbitrary: c)
  case Nil
  then show ?case by (simp add: cache_inv_def)
next
  case (Cons x ops)
  have "\<exists>c1. apply_op x c = Inr c1 \<and> cache_inv c1"
  proof (cases x)
    case (Put path surface)
    with put_cache_inv[OF Cons.prems(1), of path surface] show ?thesis by simp
  next
    case (Get path)
    with get_cache_inv[OF Cons.prems(1), of path] show ?thesis by auto
  next
    case Clear
    with Cons.prems(2) show ?thesis by simp
  qed
  then obtain c1 where "apply_op x c = Inr c1" "cache_inv c1" by blast
  with Cons.IH[of c1] Cons.prems(2) show ?case by simp
qed

text \<open>
  C4 at the failing input: after one \<open>put\<close>, the art-mode key clears the dict only; the
  deque still holds the key and \<open>current_memory\<close> still counts its 400 bytes.
  (\<open>run_ops_cache_inv\<close> above is the part of C4 that holds: the key sets agree after every
  \<open>get\<close> and \<open>put\<close> of a run without the clear.)
\<close>

theorem art_toggle_leaves_stale_keys:
  "(case put ''a.png'' (Some \<lparr>get_width = 10, get_height = 10\<rparr>) (ImageCache_init 500) of
      Inl e \<Rightarrow> Inl e
    | Inr c \<Rightarrow>
        map_sum id
          (\<lambda>v. (cache_keys (image_cache v), set (access_order (image_cache v)),
                current_memory (image_cache v)))
          (handle_event (\<lambda>x. x) (KEYDOWN K_a)
             ((main_init (\<lambda>x. x) [''a.png''] 0)\<lparr>image_cache := c\<rparr>))) =
   Inr ({}, {''a.png''}, 400)"
  by (simp add: put_def evict_loop.simps ImageCache_init_def get_surface_size_def
      add_surface_def cache_clear_def cache_keys_def main_init_def)

section \<open>Properties of the preloader\<close>

lemma in_cache_keys: "in_cache k c \<longleftrightarrow> k \<in> cache_keys c"
  by (simp add: in_cache_def cache_keys_def map_of_eq_None_iff)

lemma preload_path_hit:
  assumes "cache_ok c" "path \<notin> preload_queue p" "in_cache path c"
  shows "preload_path path (p, c) = Inr (p, c\<lparr>access_order := touch path (access_order c)\<rparr>)"
    and "cache_ok (c\<lparr>access_order := touch path (access_order c)\<rparr>)"
proof -
  from get_ok[OF assms(1), of path] obtain r c' where
    g: "get path c = Inr (r, c')" "cache_ok c'" "r = map_of (cache c) path" by blast
  from assms(3) obtain s where s: "map_of (cache c) path = Some s" by (auto simp: in_cache_def)
  have mem: "path \<in> set (access_order c)"
    using assms(1,3) by (auto simp: in_cache_keys cache_ok_def)
  have c': "c' = c\<lparr>access_order := touch path (access_order c)\<rparr>"
    using g(1) assms(3) mem by (simp add: get_def deque_remove_def touch_def)
  show "preload_path path (p, c) = Inr (p, c\<lparr>access_order := touch path (access_order c)\<rparr>)"
    using assms(2) g(1,3) s c' by (simp add: preload_path_def)
  show "cache_ok (c\<lparr>access_order := touch path (access_order c)\<rparr>)"
    using g(2) c' by simp
qed

lemma preload_path_miss:
  assumes "path \<notin> preload_queue p" "\<not> in_cache path c"
  shows "preload_path path (p, c) =
           Inr (p\<lparr>preload_queue := insert path (preload_queue p),
                   executor := executor p @ [path]\<rparr>, c)"
  using assms by (simp add: preload_path_def get_def)

lemma preload_path_queued:
  "path \<in> preload_queue p \<Longrightarrow> preload_path path (p, c) = Inr (p, c)"
  by (simp add: preload_path_def)

lemma touched_paths_touch:
  "touched_paths paths p (c\<lparr>access_order := ao\<rparr>) = touched_paths paths p c"
  by (simp add: touched_paths_def in_cache_def)

lemma touched_paths_insert:
  "\<not> in_cache path c \<Longrightarrow>
   touched_paths paths (p\<lparr>preload_queue := insert path (preload_queue p), executor := ex\<rparr>) c =
   touched_paths paths p c"
  unfolding touched_paths_def by (rule filter_cong) auto

lemma preload_paths_result:
  "cache_ok c \<Longrightarrow>
   \<exists>new. preload_paths paths (p, c) =
           Inr (p\<lparr>preload_queue := preload_queue p \<union> set new, executor := executor p @ new\<rparr>,
                c\<lparr>access_order := fold touch (touched_paths paths p c) (access_order c)\<rparr>) \<and>
         distinct new \<and>
         set new = {k \<in> set paths. k \<notin> preload_queue p \<and> \<not> in_cache k c} \<and>
         cache_ok (c\<lparr>access_order := fold touch (touched_paths paths p c) (access_order c)\<rparr>)"
proof (induction paths arbitrary: p c)
  case Nil
  then show ?case by (simp add: touched_paths_def)
next
  case (Cons path paths)
  consider (queued) "path \<in> preload_queue p"
    | (hit) "path \<notin> preload_queue p" "in_cache path c"
    | (miss) "path \<notin> preload_queue p" "\<not> in_cache path c" by blast
  then show ?case
  proof cases
    case queued
    from Cons.IH[OF Cons.prems, of p] obtain new where new:
      "preload_paths paths (p, c) =
           Inr (p\<lparr>preload_queue := preload_queue p \<union> set new, executor := executor p @ new\<rparr>,
                c\<lparr>access_order := fold touch (touched_paths paths p c) (access_order c)\<rparr>)"
      "distinct new" "set new = {k \<in> set paths. k \<notin> preload_queue p \<and> \<not> in_cache k c}"
      "cache_ok (c\<lparr>access_order := fold touch (touched_paths paths p c) (access_order c)\<rparr>)"
      by blast
    have t: "touched_paths (path # paths) p c = touched_paths paths p c"
      using queued by (simp add: touched_paths_def)
    show ?thesis
      using new queued unfolding t
      by (intro exI[of _ new]) (auto simp: preload_path_queued)
  next
    case hit
    let ?c1 = "c\<lparr>access_order := touch path (access_order c)\<rparr>"
    note h = preload_path_hit[OF Cons.prems hit]
    from Cons.IH[OF h(2), of p] obtain new where new:
      "preload_paths paths (p, ?c1) =
           Inr (p\<lparr>preload_queue := preload_queue p \<union> set new, executor := executor p @ new\<rparr>,
                ?c1\<lparr>access_order := fold touch (touched_paths paths p ?c1) (access_order ?c1)\<rparr>)"
      "distinct new" "set new = {k \<in> set paths. k \<notin> preload_queue p \<and> \<not> in_cache k ?c1}"
      "cache_ok (?c1\<lparr>access_order := fold touch (touched_paths paths p ?c1) (access_order ?c1)\<rparr>)"
      by blast
    have t: "touched_paths (path # paths) p c = path # touched_paths paths p c"
      using hit by (simp add: touched_paths_def)
    have ic: "\<And>k. in_cache k ?c1 = in_cache k c" by (simp add: in_cache_def)
    show ?thesis
      using new hit h(1) unfolding t touched_paths_touch ic
      by (intro exI[of _ new]) auto
  next
    case miss
    let ?p1 = "p\<lparr>preload_queue := insert path (preload_queue p), executor := executor p @ [path]\<rparr>"
    from Cons.IH[OF Cons.prems, of ?p1] obtain new where new:
      "preload_paths paths (?p1, c) =
           Inr (?p1\<lparr>preload_queue := preload_queue ?p1 \<union> set new, executor := executor ?p1 @ new\<rparr>,
                c\<lparr>access_order := fold touch (touched_paths paths ?p1 c) (access_order c)\<rparr>)"
      "distinct new" "set new = {k \<in> set paths. k \<notin> preload_queue ?p1 \<and> \<not> in_cache k c}"
      "cache_ok (c\<lparr>access_order := fold touch (touched_paths paths ?p1 c) (access_order c)\<rparr>)"
      by blast
    have t: "touched_paths (path # paths) p c = touched_paths paths p c"
      using miss by (simp add: touched_paths_def)
    have t1: "touched_paths paths ?p1 c = touched_paths paths p c"
      using miss(2) by (rule touched_paths_insert)
    have nin: "path \<notin> set new" using new(3) by simp
    show ?thesis
      using new miss nin preload_path_miss[OF miss] unfolding t t1
      by (intro exI[of _ "path # new"]) auto
  qed
qed

lemma preload_images_result:
  assumes "cache_ok c"
  shows "\<exists>new. preload_images imgs i na nb (p, c) =
           Inr (p\<lparr>preload_queue := preload_queue p \<union> set new, executor := executor p @ new\<rparr>,
                c\<lparr>access_order :=
                    fold touch (touched_paths (if imgs = [] then [] else neighbor_paths imgs i na nb) p c)
                      (access_order c)\<rparr>) \<and>
         distinct new \<and>
         set new = {k \<in> set (if imgs = [] then [] else neighbor_paths imgs i na nb).
                      k \<notin> preload_queue p \<and> \<not> in_cache k c} \<and>
         cache_ok (c\<lparr>access_order :=
                    fold touch (touched_paths (if imgs = [] then [] else neighbor_paths imgs i na nb) p c)
                      (access_order c)\<rparr>)"
proof (cases "imgs = []")
  case True
  with assms show ?thesis
    by (intro exI[of _ "[]"]) (simp add: preload_images_def touched_paths_def)
next
  case False
  with preload_paths_result[OF assms, of "neighbor_paths imgs i na nb" p] show ?thesis
    by (simp add: preload_images_def)
qed

text \<open>
  C10. \<open>preload_images\<close> is not read-only on the cache. For a path that is not in
  \<open>preload_queue\<close> and is cached, the loop body calls \<open>cache.get\<close>, which moves the path to
  the end (most recent) of \<open>access_order\<close>, and submits no task. Over a whole call the dict
  is unchanged, the deque is the old one with every such neighbor moved to the end in turn,
  and the executor gets no task for any cached key.
\<close>

theorem preload_touches_cached_neighbors:
  assumes "cache_ok c"
  shows "(path \<notin> preload_queue p \<and> in_cache path c \<longrightarrow>
            preload_path path (p, c) =
              Inr (p, c\<lparr>access_order := remove1 path (access_order c) @ [path]\<rparr>)) \<and>
         (imgs \<noteq> [] \<longrightarrow>
            (\<exists>p' c'. preload_images imgs i na nb (p, c) = Inr (p', c') \<and>
               cache c' = cache c \<and>
               access_order c' =
                 fold touch (touched_paths (neighbor_paths imgs i na nb) p c) (access_order c) \<and>
               (\<forall>k. in_cache k c \<longrightarrow> count_list (executor p') k = count_list (executor p) k)))"
proof (intro conjI impI)
  assume "path \<notin> preload_queue p \<and> in_cache path c"
  with preload_path_hit(1)[OF assms, of path p]
  show "preload_path path (p, c) =
          Inr (p, c\<lparr>access_order := remove1 path (access_order c) @ [path]\<rparr>)"
    by (simp add: touch_def)
next
  assume ne: "imgs \<noteq> []"
  from preload_images_result[OF assms, of imgs i na nb p] ne obtain new where new:
    "preload_images imgs i na nb (p, c) =
       Inr (p\<lparr>preload_queue := preload_queue p \<union> set new, executor := executor p @ new\<rparr>,
            c\<lparr>access_order :=
                fold touch (touched_paths (neighbor_paths imgs i na nb) p c) (access_order c)\<rparr>)"
    "set new = {k \<in> set (neighbor_paths imgs i na nb). k \<notin> preload_queue p \<and> \<not> in_cache k c}"
    by auto
  have "\<forall>k. in_cache k c \<longrightarrow> count_list (executor p @ new) k = count_list (executor p) k"
    using new(2) by (auto simp: count_list_0_iff)
  with new(1)
  show "\<exists>p' c'. preload_images imgs i na nb (p, c) = Inr (p', c') \<and>
               cache c' = cache c \<and>
               access_order c' =
                 fold touch (touched_paths (neighbor_paths imgs i na nb) p c) (access_order c) \<and>
               (\<forall>k. in_cache k c \<longrightarrow> count_list (executor p') k = count_list (executor p) k)"
    by simp
qed

theorem preload_touches_cached_neighbors_witness:
  "cache_ok \<lparr>cache = [(''a.png'', \<lparr>get_width = 10, get_height = 10\<rparr>),
                      (''b.png'', \<lparr>get_width = 10, get_height = 10\<rparr>)],
             access_order = [''b.png'', ''a.png''], max_memory = 1000, current_memory = 800\<rparr> \<and>
   ''b.png'' \<notin> preload_queue ImagePreloader_init \<and>
   in_cache ''b.png'' \<lparr>cache = [(''a.png'', \<lparr>get_width = 10, get_height = 10\<rparr>),
                      (''b.png'', \<lparr>get_width = 10, get_height = 10\<rparr>)],
             access_order = [''b.png'', ''a.png''], max_memory = 1000, current_memory = 800\<rparr> \<and>
   [''x.png'', ''a.png'', ''b.png'', ''c.png''] \<noteq> [] \<and>
   preload_path ''b.png'' (ImagePreloader_init,
      \<lparr>cache = [(''a.png'', \<lparr>get_width = 10, get_height = 10\<rparr>),
                (''b.png'', \<lparr>get_width = 10, get_height = 10\<rparr>)],
       access_order = [''b.png'', ''a.png''], max_memory = 1000, current_memory = 800\<rparr>) =
     Inr (ImagePreloader_init,
      \<lparr>cache = [(''a.png'', \<lparr>get_width = 10, get_height = 10\<rparr>),
                (''b.png'', \<lparr>get_width = 10, get_height = 10\<rparr>)],
       access_order = [''a.png'', ''b.png''], max_memory = 1000, current_memory = 800\<rparr>) \<and>
   (\<exists>p' c'. preload_images [''x.png'', ''a.png'', ''b.png'', ''c.png''] 0 2 1
        (ImagePreloader_init,
         \<lparr>cache = [(''a.png'', \<lparr>get_width = 10, get_height = 10\<rparr>),
                   (''b.png'', \<lparr>get_width = 10, get_height = 10\<rparr>)],
          access_order = [''b.png'', ''a.png''], max_memory = 1000, current_memory = 800\<rparr>) =
        Inr (p', c') \<and>
      access_order c' = [''a.png'', ''b.png''] \<and>
      count_list (executor p') ''a.png'' = 0 \<and> count_list (executor p') ''b.png'' = 0)"
proof -
  let ?c = "\<lparr>cache = [(''a.png'', \<lparr>get_width = 10, get_height = 10\<rparr>),
                      (''b.png'', \<lparr>get_width = 10, get_height = 10\<rparr>)],
             access_order = [''b.png'', ''a.png''], max_memory = 1000, current_memory = 800\<rparr>"
  let ?imgs = "[''x.png'', ''a.png'', ''b.png'', ''c.png'']"
  have ok: "cache_ok ?c"
    by (simp add: cache_ok_def cache_keys_def total_footprint_def get_surface_size_def)
  have q: "''b.png'' \<notin> preload_queue ImagePreloader_init" by (simp add: ImagePreloader_init_def)
  have ia: "in_cache ''a.png'' ?c" and ib: "in_cache ''b.png'' ?c" by (simp_all add: in_cache_def)
  have ne: "?imgs \<noteq> []" by simp
  have np: "neighbor_paths ?imgs 0 2 1 = [''a.png'', ''b.png'', ''c.png'']"
    by (simp add: neighbor_paths_def preload_indices_def upto.simps)
  have tp: "touched_paths [''a.png'', ''b.png'', ''c.png''] ImagePreloader_init ?c = [''a.png'', ''b.png'']"
    by (simp add: touched_paths_def in_cache_def ImagePreloader_init_def)
  note th = preload_touches_cached_neighbors[OF ok, of "''b.png''" ImagePreloader_init ?imgs 0 2 1]
  from th q ib have 1: "preload_path ''b.png'' (ImagePreloader_init, ?c) =
      Inr (ImagePreloader_init, ?c\<lparr>access_order := remove1 ''b.png'' (access_order ?c) @ [''b.png'']\<rparr>)"
    by blast
  from th ne obtain p' c' where 2:
    "preload_images ?imgs 0 2 1 (ImagePreloader_init, ?c) = Inr (p', c')"
    "access_order c' = fold touch (touched_paths (neighbor_paths ?imgs 0 2 1) ImagePreloader_init ?c)
                         (access_order ?c)"
    "\<forall>k. in_cache k ?c \<longrightarrow> count_list (executor p') k = count_list (executor ImagePreloader_init) k"
    by blast
  from 2(2) have 3: "access_order c' = [''a.png'', ''b.png'']"
    unfolding np tp by (simp add: touch_def)
  from 2(3) ia ib have 4: "count_list (executor p') ''a.png'' = 0" "count_list (executor p') ''b.png'' = 0"
    by (simp_all add: ImagePreloader_init_def)
  from 2(1) 3 4 have "\<exists>p' c'. preload_images ?imgs 0 2 1 (ImagePreloader_init, ?c) = Inr (p', c') \<and>
      access_order c' = [''a.png'', ''b.png''] \<and>
      count_list (executor p') ''a.png'' = 0 \<and> count_list (executor p') ''b.png'' = 0"
    by blast
  with ok q ib ne 1 show ?thesis by simp
qed

lemma sys_step_inv:
  assumes "cache_ok c" "inflight_inv p"
  shows "\<exists>p' c'. sys_step ev (p, c) = Inr (p', c') \<and> cache_ok c' \<and> inflight_inv p'"
proof (cases ev)
  case (Schedule imgs i na nb)
  from preload_images_result[OF assms(1), of imgs i na nb p] obtain new where new:
    "preload_images imgs i na nb (p, c) =
       Inr (p\<lparr>preload_queue := preload_queue p \<union> set new, executor := executor p @ new\<rparr>,
            c\<lparr>access_order :=
                fold touch (touched_paths (if imgs = [] then [] else neighbor_paths imgs i na nb) p c)
                  (access_order c)\<rparr>)"
    "distinct new"
    "set new = {k \<in> set (if imgs = [] then [] else neighbor_paths imgs i na nb).
                  k \<notin> preload_queue p \<and> \<not> in_cache k c}"
    "cache_ok (c\<lparr>access_order :=
                fold touch (touched_paths (if imgs = [] then [] else neighbor_paths imgs i na nb) p c)
                  (access_order c)\<rparr>)"
    by blast
  have "set new \<inter> preload_queue p = {}" using new(3) by auto
  with assms(2) new(2)
  have "inflight_inv (p\<lparr>preload_queue := preload_queue p \<union> set new, executor := executor p @ new\<rparr>)"
    by (auto simp: inflight_inv_def)
  with new(1,4) Schedule show ?thesis by simp
next
  case (TaskDone path surface)
  show ?thesis
  proof (cases "path \<in> set (executor p)")
    case False
    with TaskDone assms show ?thesis by simp
  next
    case True
    have "\<exists>c'. (case surface of None \<Rightarrow> Inr c | Some s \<Rightarrow> put path (Some s) c) = Inr c' \<and> cache_ok c'"
      using put_ok[OF assms(1), of path] assms(1) by (cases surface) auto
    then obtain c' where c': "(case surface of None \<Rightarrow> Inr c | Some s \<Rightarrow> put path (Some s) c) = Inr c'"
      "cache_ok c'" by blast
    have "inflight_inv (p\<lparr>preload_queue := preload_queue p - {path},
                           executor := remove1 path (executor p)\<rparr>)"
      using assms(2) by (auto simp: inflight_inv_def)
    with c' True TaskDone show ?thesis by (simp add: preload_task_def)
  qed
next
  case (Foreground x)
  with apply_op_ok[OF assms(1), of x] assms(2) show ?thesis by auto
qed

lemma sys_run_inv:
  "cache_ok c \<Longrightarrow> inflight_inv p \<Longrightarrow>
   \<exists>p' c'. sys_run evs (p, c) = Inr (p', c') \<and> cache_ok c' \<and> inflight_inv p'"
proof (induction evs arbitrary: p c)
  case Nil
  then show ?case by simp
next
  case (Cons ev evs)
  from sys_step_inv[OF Cons.prems, of ev] obtain p1 c1 where
    "sys_step ev (p, c) = Inr (p1, c1)" "cache_ok c1" "inflight_inv p1" by blast
  with Cons.IH[of c1 p1] show ?case by simp
qed

lemma distinct_count_le_1: "distinct xs \<Longrightarrow> count_list xs k \<le> 1"
  by (induction xs) (auto simp: count_list_0_iff)

lemma distinct_count_1: "distinct xs \<Longrightarrow> k \<in> set xs \<Longrightarrow> count_list xs k = 1"
  by (induction xs) (auto simp: count_list_0_iff)

lemma init_inflight_inv: "inflight_inv ImagePreloader_init"
  by (simp add: inflight_inv_def ImagePreloader_init_def)

lemma schedule_queued_key:
  assumes "cache_ok c" "k \<in> preload_queue p"
  shows "\<exists>p' c'. preload_images imgs i na nb (p, c) = Inr (p', c') \<and>
           count_list (executor p') k = count_list (executor p) k"
proof -
  from preload_images_result[OF assms(1), of imgs i na nb p] obtain new where new:
    "preload_images imgs i na nb (p, c) =
       Inr (p\<lparr>preload_queue := preload_queue p \<union> set new, executor := executor p @ new\<rparr>,
            c\<lparr>access_order :=
                fold touch (touched_paths (if imgs = [] then [] else neighbor_paths imgs i na nb) p c)
                  (access_order c)\<rparr>)"
    "set new = {k \<in> set (if imgs = [] then [] else neighbor_paths imgs i na nb).
                  k \<notin> preload_queue p \<and> \<not> in_cache k c}"
    by blast
  from new(2) assms(2) have "k \<notin> set new" by simp
  with new(1) show ?thesis by (simp add: count_list_0_iff)
qed

lemma schedule_twice:
  assumes "cache_ok c0" "imgs \<noteq> []" "k \<in> set (neighbor_paths imgs i na nb)" "\<not> in_cache k c0"
  shows "\<exists>p c. sys_run [Schedule imgs i na nb, Schedule imgs2 i2 na2 nb2]
                 (ImagePreloader_init, c0) = Inr (p, c) \<and> count_list (executor p) k = 1"
proof -
  let ?p0 = ImagePreloader_init
  from preload_images_result[OF assms(1), of imgs i na nb ?p0] assms(2) obtain new where new:
    "preload_images imgs i na nb (?p0, c0) =
       Inr (?p0\<lparr>preload_queue := preload_queue ?p0 \<union> set new, executor := executor ?p0 @ new\<rparr>,
            c0\<lparr>access_order :=
                fold touch (touched_paths (neighbor_paths imgs i na nb) ?p0 c0) (access_order c0)\<rparr>)"
    "distinct new"
    "set new = {k \<in> set (neighbor_paths imgs i na nb). k \<notin> preload_queue ?p0 \<and> \<not> in_cache k c0}"
    "cache_ok (c0\<lparr>access_order :=
                fold touch (touched_paths (neighbor_paths imgs i na nb) ?p0 c0) (access_order c0)\<rparr>)"
    by auto
  define p1 where "p1 = ?p0\<lparr>preload_queue := preload_queue ?p0 \<union> set new, executor := executor ?p0 @ new\<rparr>"
  define c1 where "c1 = c0\<lparr>access_order :=
                fold touch (touched_paths (neighbor_paths imgs i na nb) ?p0 c0) (access_order c0)\<rparr>"
  have kn: "k \<in> set new" using new(3) assms(3,4) by (simp add: ImagePreloader_init_def)
  have ex1: "executor p1 = new" and q1: "k \<in> preload_queue p1"
    using kn by (simp_all add: p1_def ImagePreloader_init_def)
  have cnt1: "count_list (executor p1) k = 1"
    unfolding ex1 using new(2) kn by (rule distinct_count_1)
  have ok1: "cache_ok c1" unfolding c1_def by (rule new(4))
  from schedule_queued_key[OF ok1 q1, of imgs2 i2 na2 nb2] obtain p2 c2 where
    "preload_images imgs2 i2 na2 nb2 (p1, c1) = Inr (p2, c2)"
    "count_list (executor p2) k = count_list (executor p1) k" by blast
  with new(1) cnt1 show ?thesis by (simp add: p1_def[symmetric] c1_def[symmetric])
qed

text \<open>
  C5. Starting from a new preloader, after every sequence of \<open>preload_images\<close> calls, task
  completions and foreground cache operations, each taken as one atomic step, a key has at
  most one pending \<open>_preload_task\<close>, and it has one exactly when it is in \<open>preload_queue\<close>.
  A \<open>preload_images\<close> call submits no task for a key of \<open>preload_queue\<close>; two calls in a
  row that name an uncached key leave exactly one task for it.
\<close>

theorem one_task_per_key:
  assumes "cache_ok c0"
  shows "(\<forall>n\<le>length evs.
            \<exists>p c. sys_run (take n evs) (ImagePreloader_init, c0) = Inr (p, c) \<and>
                  count_list (executor p) k \<le> 1 \<and>
                  (k \<in> preload_queue p \<longleftrightarrow> k \<in> set (executor p))) \<and>
         (cache_ok c \<and> k \<in> preload_queue p \<longrightarrow>
            (\<exists>p' c'. preload_images imgs i na nb (p, c) = Inr (p', c') \<and>
                     count_list (executor p') k = count_list (executor p) k)) \<and>
         (imgs \<noteq> [] \<and> k \<in> set (neighbor_paths imgs i na nb) \<and> \<not> in_cache k c0 \<longrightarrow>
            (\<exists>p c. sys_run [Schedule imgs i na nb, Schedule imgs2 i2 na2 nb2]
                     (ImagePreloader_init, c0) = Inr (p, c) \<and>
                   count_list (executor p) k = 1))"
proof (intro conjI allI impI)
  fix n assume "n \<le> length evs"
  from sys_run_inv[OF assms init_inflight_inv, of "take n evs"] obtain p c where
    "sys_run (take n evs) (ImagePreloader_init, c0) = Inr (p, c)" "inflight_inv p" by blast
  then show "\<exists>p c. sys_run (take n evs) (ImagePreloader_init, c0) = Inr (p, c) \<and>
                  count_list (executor p) k \<le> 1 \<and>
                  (k \<in> preload_queue p \<longleftrightarrow> k \<in> set (executor p))"
    using distinct_count_le_1[of "executor p" k] by (auto simp: inflight_inv_def)
next
  assume "cache_ok c \<and> k \<in> preload_queue p"
  then show "\<exists>p' c'. preload_images imgs i na nb (p, c) = Inr (p', c') \<and>
                     count_list (executor p') k = count_list (executor p) k"
    using schedule_queued_key by blast
next
  assume "imgs \<noteq> [] \<and> k \<in> set (neighbor_paths imgs i na nb) \<and> \<not> in_cache k c0"
  then show "\<exists>p c. sys_run [Schedule imgs i na nb, Schedule imgs2 i2 na2 nb2]
                     (ImagePreloader_init, c0) = Inr (p, c) \<and>
                   count_list (executor p) k = 1"
    using schedule_twice[OF assms] by blast
qed

theorem one_task_per_key_witness:
  "cache_ok (ImageCache_init 500) \<and>
   [''x.png'', ''a.png'', ''b.png''] \<noteq> [] \<and>
   ''a.png'' \<in> set (neighbor_paths [''x.png'', ''a.png'', ''b.png''] 0 2 1) \<and>
   \<not> in_cache ''a.png'' (ImageCache_init 500) \<and>
   cache_ok (ImageCache_init 500) \<and>
   ''a.png'' \<in> preload_queue \<lparr>preload_queue = {''a.png''}, executor = [''a.png'']\<rparr> \<and>
   (\<exists>p c. sys_run (take 3 [Schedule [''x.png'', ''a.png'', ''b.png''] 0 2 1,
                           TaskDone ''a.png'' None,
                           Schedule [''x.png'', ''a.png'', ''b.png''] 0 2 1])
            (ImagePreloader_init, ImageCache_init 500) = Inr (p, c) \<and>
          count_list (executor p) ''a.png'' \<le> 1) \<and>
   (\<exists>p' c'. preload_images [''x.png'', ''a.png'', ''b.png''] 0 2 1
              (\<lparr>preload_queue = {''a.png''}, executor = [''a.png'']\<rparr>, ImageCache_init 500) =
            Inr (p', c') \<and>
          count_list (executor p') ''a.png'' = 1) \<and>
   (\<exists>p c. sys_run [Schedule [''x.png'', ''a.png'', ''b.png''] 0 2 1,
                   Schedule [''x.png'', ''a.png'', ''b.png''] 0 2 1]
            (ImagePreloader_init, ImageCache_init 500) = Inr (p, c) \<and>
          count_list (executor p) ''a.png'' = 1)"
proof -
  let ?imgs = "[''x.png'', ''a.png'', ''b.png'']"
  let ?evs = "[Schedule ?imgs 0 2 1, TaskDone ''a.png'' None, Schedule ?imgs 0 2 1]"
  let ?p = "\<lparr>preload_queue = {''a.png''}, executor = [''a.png'']\<rparr>"
  have ok: "cache_ok (ImageCache_init 500)"
    by (simp add: cache_ok_def ImageCache_init_def cache_keys_def total_footprint_def)
  have ne: "?imgs \<noteq> []" by simp
  have nb: "''a.png'' \<in> set (neighbor_paths ?imgs 0 2 1)"
    by (simp add: neighbor_paths_def preload_indices_def upto.simps)
  have ni: "\<not> in_cache ''a.png'' (ImageCache_init 500)"
    by (simp add: in_cache_def ImageCache_init_def)
  have q: "''a.png'' \<in> preload_queue ?p" by simp
  note th = one_task_per_key[OF ok, where evs = ?evs and k = "''a.png''" and c = "ImageCache_init 500"
      and p = ?p and imgs = ?imgs and i = 0 and na = 2 and nb = 1
      and ?imgs2.0 = ?imgs and ?i2.0 = 0 and ?na2.0 = 2 and ?nb2.0 = 1]
  have l: "3 \<le> length ?evs" by simp
  from th l have 1: "\<exists>p c. sys_run (take 3 ?evs) (ImagePreloader_init, ImageCache_init 500) = Inr (p, c) \<and>
          count_list (executor p) ''a.png'' \<le> 1"
    by blast
  from th ok q have s2: "\<exists>p' c'. preload_images ?imgs 0 2 1 (?p, ImageCache_init 500) = Inr (p', c') \<and>
          count_list (executor p') ''a.png'' = count_list (executor ?p) ''a.png''"
    by blast
  from th ne nb ni have 3: "\<exists>p c. sys_run [Schedule ?imgs 0 2 1, Schedule ?imgs 0 2 1]
            (ImagePreloader_init, ImageCache_init 500) = Inr (p, c) \<and>
          count_list (executor p) ''a.png'' = 1"
    by blast
  from s2 have s2': "\<exists>p' c'. preload_images ?imgs 0 2 1 (?p, ImageCache_init 500) = Inr (p', c') \<and>
          count_list (executor p') ''a.png'' = 1"
    by simp
  from ok ne nb ni q 1 s2' 3 show ?thesis by blast
qed

section \<open>Properties of the viewport state\<close>

text \<open>
  C6 (as amended). The slideshow check does not read \<open>mosaic_mode\<close>: its result is the
  same in mosaic mode as outside it. When the slideshow is active and more than
  \<open>slideshow_delay\<close> ms have passed since \<open>last_slide_time\<close>, it sets \<open>current_index\<close> to
  \<open>(current_index + 1) mod N\<close> for the \<open>N\<close> images and \<open>last_slide_time\<close> to the current
  time, which changes the index whenever there is more than one image and the index is in
  range. When the slideshow is inactive or the delay has not passed, it changes nothing.
\<close>

theorem slideshow_ignores_mosaic_mode:
  "handle_slideshow current_time (v\<lparr>mosaic_mode := m\<rparr>) =
     map_sum id (\<lambda>v'. v'\<lparr>mosaic_mode := m\<rparr>) (handle_slideshow current_time v) \<and>
   (slideshow_active v \<and> slideshow_delay v < current_time - last_slide_time v \<and> images v \<noteq> [] \<longrightarrow>
      handle_slideshow current_time v =
        Inr (v\<lparr>current_index := (current_index v + 1) mod int (length (images v)),
               last_slide_time := current_time\<rparr>)) \<and>
   (slideshow_active v \<and> slideshow_delay v < current_time - last_slide_time v \<and>
    1 < length (images v) \<and> 0 \<le> current_index v \<and> current_index v < int (length (images v)) \<longrightarrow>
      map_sum id current_index (handle_slideshow current_time v) \<noteq> Inr (current_index v)) \<and>
   (\<not> (slideshow_active v \<and> slideshow_delay v < current_time - last_slide_time v) \<longrightarrow>
      handle_slideshow current_time v = Inr v)"
proof -
  have "(i + 1) mod n \<noteq> i" if "1 < n" "0 \<le> i" "i < n" for i n :: int
  proof (cases "i + 1 < n")
    case True
    with that show ?thesis by simp
  next
    case False
    with that have "i + 1 = n" by simp
    with that show ?thesis by auto
  qed
  then show ?thesis by (auto simp: handle_slideshow_def)
qed

theorem slideshow_ignores_mosaic_mode_witness:
  "slideshow_active \<lparr>images = [''a.png'', ''b.png''], current_index = 1, running = True,
      image_cache = ImageCache_init 500, zoom = 1, pan_x = 0, pan_y = 0,
      slideshow_active = True, slideshow_delay = 3000, last_slide_time = 0,
      art_mode = False, mosaic_mode = True\<rparr> \<and>
   (3000::int) < 3001 - 0 \<and>
   1 < length (images \<lparr>images = [''a.png'', ''b.png''], current_index = 1, running = True,
      image_cache = ImageCache_init 500, zoom = 1, pan_x = 0, pan_y = 0,
      slideshow_active = True, slideshow_delay = 3000, last_slide_time = 0,
      art_mode = False, mosaic_mode = True\<rparr>) \<and>
   0 \<le> current_index \<lparr>images = [''a.png'', ''b.png''], current_index = 1, running = True,
      image_cache = ImageCache_init 500, zoom = 1, pan_x = 0, pan_y = 0,
      slideshow_active = True, slideshow_delay = 3000, last_slide_time = 0,
      art_mode = False, mosaic_mode = True\<rparr> \<and>
   current_index \<lparr>images = [''a.png'', ''b.png''], current_index = 1, running = True,
      image_cache = ImageCache_init 500, zoom = 1, pan_x = 0, pan_y = 0,
      slideshow_active = True, slideshow_delay = 3000, last_slide_time = 0,
      art_mode = False, mosaic_mode = True\<rparr> < 2 \<and>
   handle_slideshow 3001 \<lparr>images = [''a.png'', ''b.png''], current_index = 1, running = True,
      image_cache = ImageCache_init 500, zoom = 1, pan_x = 0, pan_y = 0,
      slideshow_active = True, slideshow_delay = 3000, last_slide_time = 0,
      art_mode = False, mosaic_mode = True\<rparr> =
   Inr \<lparr>images = [''a.png'', ''b.png''], current_index = 0, running = True,
      image_cache = ImageCache_init 500, zoom = 1, pan_x = 0, pan_y = 0,
      slideshow_active = True, slideshow_delay = 3000, last_slide_time = 3001,
      art_mode = False, mosaic_mode = True\<rparr> \<and>
   map_sum id current_index (handle_slideshow 3001 \<lparr>images = [''a.png'', ''b.png''], current_index = 1, running = True,
      image_cache = ImageCache_init 500, zoom = 1, pan_x = 0, pan_y = 0,
      slideshow_active = True, slideshow_delay = 3000, last_slide_time = 0,
      art_mode = False, mosaic_mode = True\<rparr>) \<noteq> Inr 1 \<and>
   handle_slideshow 2000 \<lparr>images = [''a.png'', ''b.png''], current_index = 1, running = True,
      image_cache = ImageCache_init 500, zoom = 1, pan_x = 0, pan_y = 0,
      slideshow_active = True, slideshow_delay = 3000, last_slide_time = 0,
      art_mode = False, mosaic_mode = True\<rparr> =
   Inr \<lparr>images = [''a.png'', ''b.png''], current_index = 1, running = True,
      image_cache = ImageCache_init 500, zoom = 1, pan_x = 0, pan_y = 0,
      slideshow_active = True, slideshow_delay = 3000, last_slide_time = 0,
      art_mode = False, mosaic_mode = True\<rparr>"
  using slideshow_ignores_mosaic_mode[where current_time = 3001 and m = True and v = "\<lparr>images = [''a.png'', ''b.png''], current_index = 1, running = True,
      image_cache = ImageCache_init 500, zoom = 1, pan_x = 0, pan_y = 0,
      slideshow_active = True, slideshow_delay = 3000, last_slide_time = 0,
      art_mode = False, mosaic_mode = True\<rparr>"]
    slideshow_ignores_mosaic_mode[where current_time = 2000 and m = True and v = "\<lparr>images = [''a.png'', ''b.png''], current_index = 1, running = True,
      image_cache = ImageCache_init 500, zoom = 1, pan_x = 0, pan_y = 0,
      slideshow_active = True, slideshow_delay = 3000, last_slide_time = 0,
      art_mode = False, mosaic_mode = True\<rparr>"]
  by simp

text \<open>
  As stated, C6 fails: with two images, after the keys M and Space, the check at 3001 ms
  moves \<open>current_index\<close> from 0 to 1 although \<open>mosaic_mode\<close> is on.
\<close>

theorem slideshow_advances_in_mosaic_mode:
  "(case handle_events (\<lambda>x. x) [KEYDOWN K_m, KEYDOWN K_SPACE]
           (main_init (\<lambda>x. x) [''a.png'', ''b.png''] 0) of
      Inl e \<Rightarrow> Inl e
    | Inr v \<Rightarrow>
        map_sum id (\<lambda>v'. (mosaic_mode v, slideshow_active v, current_index v, current_index v'))
          (handle_slideshow 3001 v)) =
   Inr (True, True, 0, 1)"
  by (simp add: main_init_def handle_slideshow_def)

text \<open>
  C7 (as amended). The Space key flips \<open>slideshow_active\<close> and changes nothing else; in
  particular \<open>last_slide_time\<close> keeps its value. So when the slideshow is switched on more
  than \<open>slideshow_delay\<close> ms after \<open>last_slide_time\<close>, the check of the next frame advances
  at once.
\<close>

theorem slideshow_toggle_keeps_last_slide_time:
  "handle_event fl (KEYDOWN K_SPACE) v = Inr (v\<lparr>slideshow_active := \<not> slideshow_active v\<rparr>) \<and>
   (\<not> slideshow_active v \<and> images v \<noteq> [] \<and> slideshow_delay v < current_time - last_slide_time v \<longrightarrow>
      (case handle_event fl (KEYDOWN K_SPACE) v of
         Inl e \<Rightarrow> Inl e
       | Inr v' \<Rightarrow> handle_slideshow current_time v') =
      Inr (v\<lparr>slideshow_active := True,
             current_index := (current_index v + 1) mod int (length (images v)),
             last_slide_time := current_time\<rparr>))"
  by (simp add: handle_slideshow_def)

theorem slideshow_toggle_keeps_last_slide_time_witness:
  "\<not> slideshow_active (main_init (\<lambda>x. x) [''a.png'', ''b.png''] 0) \<and>
   images (main_init (\<lambda>x. x) [''a.png'', ''b.png''] 0) \<noteq> [] \<and>
   slideshow_delay (main_init (\<lambda>x. x) [''a.png'', ''b.png''] 0)
     < 10001 - last_slide_time (main_init (\<lambda>x. x) [''a.png'', ''b.png''] 0) \<and>
   (case handle_event (\<lambda>x. x) (KEYDOWN K_SPACE) (main_init (\<lambda>x. x) [''a.png'', ''b.png''] 0) of
      Inl e \<Rightarrow> Inl e
    | Inr v' \<Rightarrow> handle_slideshow 10001 v') =
   Inr ((main_init (\<lambda>x. x) [''a.png'', ''b.png''] 0)
          \<lparr>slideshow_active := True, current_index := 1, last_slide_time := 10001\<rparr>)"
  using slideshow_toggle_keeps_last_slide_time[of "\<lambda>x. x"
      "main_init (\<lambda>x. x) [''a.png'', ''b.png''] 0" 10001]
  by (simp add: main_init_def)

text \<open>
  As stated, C7 fails: the handler has no access to the time, \<open>last_slide_time\<close> is still 0
  after the key, and a check at 10001 ms, right after a key pressed at 10000 ms, advances
  \<open>current_index\<close>, less than 3000 ms after the activation.
\<close>

theorem slideshow_advances_right_after_activation:
  "(case handle_event (\<lambda>x. x) (KEYDOWN K_SPACE) (main_init (\<lambda>x. x) [''a.png'', ''b.png''] 0) of
      Inl e \<Rightarrow> Inl e
    | Inr v \<Rightarrow>
        map_sum id (\<lambda>v'. (slideshow_active v, last_slide_time v, slideshow_delay v, current_index v,
                        current_index v'))
          (handle_slideshow 10001 v)) =
   Inr (True, 0, 3000, 0, 1)"
  by (simp add: main_init_def handle_slideshow_def)

text \<open>
  C8 (as amended). The M key flips \<open>mosaic_mode\<close> and changes nothing else: \<open>zoom\<close>,
  \<open>pan_x\<close> and \<open>pan_y\<close> keep their values, on entry into mosaic mode as on exit.
\<close>

theorem mosaic_toggle_keeps_view:
  "handle_event fl (KEYDOWN K_m) v = Inr (v\<lparr>mosaic_mode := \<not> mosaic_mode v\<rparr>) \<and>
   map_sum id (\<lambda>v'. (zoom v', pan_x v', pan_y v')) (handle_event fl (KEYDOWN K_m) v) =
     Inr (zoom v, pan_x v, pan_y v)"
  by simp

text \<open>
  As stated, C8 fails: after one wheel-up step and a drag by (5, 7), entering mosaic mode
  leaves \<open>zoom\<close> at 1.1 and the pan offset at (5, 7).
\<close>

theorem mosaic_entry_keeps_zoom_and_pan:
  "map_sum id (\<lambda>v. (mosaic_mode v, zoom v, pan_x v, pan_y v))
     (handle_events (\<lambda>x. x) [MOUSEBUTTONDOWN 4, MOUSEMOTION True 5 7, KEYDOWN K_m]
        (main_init (\<lambda>x. x) [''a.png''] 0)) =
   Inr (True, 11 / 10, 5, 7)"
  by (simp add: main_init_def zoom_in_def)

lemma rounding_facts:
  assumes "rounding fl"
  shows "x \<le> y \<Longrightarrow> fl x \<le> fl y" "fl (fl x) = fl x" "fl 0 = 0" "fl 1 = 1" "fl 4 = 4"
proof -
  from assms have m: "mono fl" and i: "fl \<circ> fl = fl" and c: "fl 0 = 0" "fl 1 = 1" "fl 4 = 4"
    by (simp_all add: rounding_def)
  show "x \<le> y \<Longrightarrow> fl x \<le> fl y" using m by (simp add: monoD)
  show "fl (fl x) = fl x" using i by (metis comp_apply)
  show "fl 0 = 0" "fl 1 = 1" "fl 4 = 4" using c by simp_all
qed

lemma step_ge_1:
  assumes "rounding fl" shows "1 \<le> fl (11 / 10)"
  using rounding_facts(1)[OF assms, of 1 "11 / 10"] rounding_facts(4)[OF assms] by simp

lemma zoom_min_bounds:
  assumes "rounding fl" shows "0 \<le> fl (1 / 10)" "fl (1 / 10) \<le> 1" "fl (1 / 10) \<le> fl 4"
  using rounding_facts(1)[OF assms, of 0 "1 / 10"] rounding_facts(1)[OF assms, of "1 / 10" 1]
    rounding_facts(3,4,5)[OF assms]
  by simp_all

lemma zoom_in_bounds:
  assumes r: "rounding fl" and z: "fl (1 / 10) \<le> z" "z \<le> fl 4"
  shows "fl (1 / 10) \<le> zoom_in fl z \<and> zoom_in fl z \<le> fl 4"
proof -
  have z0: "0 \<le> z" using zoom_min_bounds(1)[OF r] z(1) by simp
  have "z * 1 \<le> z * fl (11 / 10)" using step_ge_1[OF r] z0 by (intro mult_left_mono) simp_all
  then have "fl (1 / 10) \<le> z * fl (11 / 10)" using z(1) by simp
  from rounding_facts(1)[OF r this] have "fl (1 / 10) \<le> fl (z * fl (11 / 10))"
    by (simp add: rounding_facts(2)[OF r])
  with zoom_min_bounds(3)[OF r] show ?thesis by (simp add: zoom_in_def)
qed

lemma zoom_out_bounds:
  assumes r: "rounding fl" and z: "fl (1 / 10) \<le> z" "z \<le> fl 4"
  shows "fl (1 / 10) \<le> zoom_out fl z \<and> zoom_out fl z \<le> fl 4"
proof -
  have z0: "0 \<le> z" using zoom_min_bounds(1)[OF r] z(1) by simp
  have "z / fl (11 / 10) \<le> z / 1" using step_ge_1[OF r] z0 by (intro divide_left_mono) simp_all
  then have "z / fl (11 / 10) \<le> fl 4" using z(2) by simp
  from rounding_facts(1)[OF r this] have "fl (z / fl (11 / 10)) \<le> fl 4"
    by (simp add: rounding_facts(2)[OF r])
  with zoom_min_bounds(3)[OF r] show ?thesis by (simp add: zoom_out_def)
qed

lemma zoom_events_bounds:
  assumes r: "rounding fl"
  shows "list_all is_zoom_event evs \<Longrightarrow> fl (1 / 10) \<le> zoom v \<Longrightarrow> zoom v \<le> fl 4 \<Longrightarrow>
         \<exists>v'. handle_events fl evs v = Inr v' \<and> fl (1 / 10) \<le> zoom v' \<and> zoom v' \<le> fl 4"
proof (induction evs arbitrary: v)
  case Nil
  then show ?case by simp
next
  case (Cons ev evs)
  from Cons.prems(1) obtain b where ev: "ev = MOUSEBUTTONDOWN b" and b: "b = 4 \<or> b = 5"
    by (cases ev) (auto simp: is_zoom_event_def)
  from b show ?case
  proof
    assume "b = 4"
    with ev have "handle_event fl ev v = Inr (v\<lparr>zoom := zoom_in fl (zoom v)\<rparr>)" by simp
    with Cons.IH[of "v\<lparr>zoom := zoom_in fl (zoom v)\<rparr>"] Cons.prems
      zoom_in_bounds[OF r, of "zoom v"]
    show ?thesis by simp
  next
    assume "b = 5"
    with ev have "handle_event fl ev v = Inr (v\<lparr>zoom := zoom_out fl (zoom v)\<rparr>)" by simp
    with Cons.IH[of "v\<lparr>zoom := zoom_out fl (zoom v)\<rparr>"] Cons.prems
      zoom_out_bounds[OF r, of "zoom v"]
    show ?thesis by simp
  qed
qed

text \<open>
  C9. From the initial zoom 1.0, after every sequence of wheel-up and wheel-down events the
  handler returns and \<open>zoom\<close> lies between the float \<open>0.1\<close> and 4, for every rounding \<open>fl\<close>
  that is monotone, idempotent and exact on 0, 1 and 4 (as rounding to the nearest float
  is).
\<close>

theorem zoom_stays_in_range:
  assumes "rounding fl" and "list_all is_zoom_event evs"
  shows "\<forall>n\<le>length evs.
           \<exists>v. handle_events fl (take n evs) (main_init fl imgs ticks) = Inr v \<and>
               fl (1 / 10) \<le> zoom v \<and> zoom v \<le> 4"
proof (intro allI impI)
  fix n assume "n \<le> length evs"
  have l: "list_all is_zoom_event (take n evs)"
    using assms(2) by (auto simp: list_all_iff dest: in_set_takeD)
  have i: "fl (1 / 10) \<le> zoom (main_init fl imgs ticks)" "zoom (main_init fl imgs ticks) \<le> fl 4"
    using zoom_min_bounds(2)[OF assms(1)] rounding_facts(4,5)[OF assms(1)]
    by (simp_all add: main_init_def)
  from zoom_events_bounds[OF assms(1) l i] rounding_facts(5)[OF assms(1)]
  show "\<exists>v. handle_events fl (take n evs) (main_init fl imgs ticks) = Inr v \<and>
               fl (1 / 10) \<le> zoom v \<and> zoom v \<le> 4" by simp
qed

theorem zoom_stays_in_range_witness:
  "rounding (\<lambda>x. x) \<and>
   list_all is_zoom_event [MOUSEBUTTONDOWN 4, MOUSEBUTTONDOWN 4, MOUSEBUTTONDOWN 5] \<and>
   (\<exists>v. handle_events (\<lambda>x. x) (take 2 [MOUSEBUTTONDOWN 4, MOUSEBUTTONDOWN 4, MOUSEBUTTONDOWN 5])
          (main_init (\<lambda>x. x) [''a.png''] 0) = Inr v \<and>
        1 / 10 \<le> zoom v \<and> zoom v \<le> 4)"
proof -
  have r: "rounding (\<lambda>x::real. x)" by (auto simp: rounding_def mono_def)
  have l: "list_all is_zoom_event [MOUSEBUTTONDOWN 4, MOUSEBUTTONDOWN 4, MOUSEBUTTONDOWN 5]"
    by (simp add: is_zoom_event_def)
  from zoom_stays_in_range[OF r l, of "[''a.png'']" 0, rule_format, of 2] r l
  show ?thesis by simp
qed

end
